theory Spec2Isabelle
  imports Complex_Main "HOL-Library.List_Lexorder" "HOL-Library.Char_ord"
begin

section \<open>atd: the spool scanner and the job runner\<close>

text \<open>
  A shallow embedding of \<^verbatim>\<open>atd.c\<close>: the directory scan \<^verbatim>\<open>run_loop\<close>, the job runner
  \<^verbatim>\<open>run_file\<close> and the option handling of \<^verbatim>\<open>main\<close> that sets the load ceiling.

  Conventions of the model.
  \<^item> \<^verbatim>\<open>time_t\<close> is \<open>int\<close> (seconds); \<^verbatim>\<open>unsigned long\<close> is a \<open>nat\<close> below \<open>2 ^ 64\<close>, with the
    wrap-around written out where \<^verbatim>\<open>strtoul\<close> negates; \<^verbatim>\<open>uid_t\<close>, \<^verbatim>\<open>gid_t\<close> are \<open>nat\<close>s below
    \<open>2 ^ 32\<close>; file sizes and link counts are \<open>nat\<close>.
  \<^item> A file name is a \<open>string\<close> of bytes without NUL; a fixed \<^verbatim>\<open>char\<close> array is the list
    of its bytes, NUL included.
  \<^item> The character classes are those of the C locale (the daemon never calls
    \<^verbatim>\<open>setlocale\<close>).
  \<^item> A \<^verbatim>\<open>double\<close> is a real number, an infinity or NaN, compared as IEEE 754
    compares them: every comparison with NaN is false.
  \<^item> \<^verbatim>\<open>perr\<close> and \<^verbatim>\<open>pabort\<close> (declared in \<^verbatim>\<open>daemon.h\<close>, not among the sources) log
    their message and end the calling process: the outcome \<open>Exit\<close>.
  \<^item> System calls whose failure does not depend on the spool (\<^verbatim>\<open>malloc\<close>, \<^verbatim>\<open>strdup\<close>,
    \<^verbatim>\<open>dup\<close>, \<^verbatim>\<open>fcntl\<close>, \<^verbatim>\<open>chdir\<close>, \<^verbatim>\<open>opendir\<close>, the \<^verbatim>\<open>stat\<close> of the directory, the
    creation of the output file, the second \<^verbatim>\<open>fork\<close>, \<^verbatim>\<open>exec\<close>) are taken to succeed;
    the daemon's own \<^verbatim>\<open>fork\<close>, \<^verbatim>\<open>getpwuid\<close> and \<^verbatim>\<open>getloadavg\<close> are given by the
    environment. The optional session hook (\<^verbatim>\<open>HAVE_PAM\<close>) is left out.
  \<^item> \<^verbatim>\<open>readdir\<close> returns the entries the directory had at \<^verbatim>\<open>opendir\<close>, and no other
    process changes the spool while the daemon scans it; other processes change it
    between the cycles and, for the child, between its \<^verbatim>\<open>fopen\<close> and its \<^verbatim>\<open>lstat\<close>.
\<close>

subsection \<open>Character classes and string functions of the C library\<close>

definition isupper :: "char \<Rightarrow> bool" where
  "isupper c = (65 \<le> (of_char c :: nat) \<and> (of_char c :: nat) \<le> 90)"

definition islower :: "char \<Rightarrow> bool" where
  "islower c = (97 \<le> (of_char c :: nat) \<and> (of_char c :: nat) \<le> 122)"

definition isspace :: "char \<Rightarrow> bool" where
  "isspace c = ((of_char c :: nat) = 32 \<or> (9 \<le> (of_char c :: nat) \<and> (of_char c :: nat) \<le> 13))"

definition tolower :: "char \<Rightarrow> nat" where
  "tolower c = (if isupper c then of_char c + 32 else of_char c)"

text \<open>The value of a hexadecimal digit, in either case, as \<^verbatim>\<open>strtoul\<close> reads it.\<close>

definition hexval :: "char \<Rightarrow> nat option" where
  "hexval c = (let n = (of_char c :: nat) in
     if 48 \<le> n \<and> n \<le> 57 then Some (n - 48)
     else if 97 \<le> n \<and> n \<le> 102 then Some (n - 87)
     else if 65 \<le> n \<and> n \<le> 70 then Some (n - 55)
     else None)"

text \<open>
  \<^verbatim>\<open>strcmp\<close>: the sign of the difference of the first two bytes that differ, the
  terminating NUL counting as byte 0.
\<close>

fun strcmp :: "string \<Rightarrow> string \<Rightarrow> int" where
  "strcmp [] [] = 0"
| "strcmp [] (b # bs) = (if (of_char b :: nat) = 0 then 0 else -1)"
| "strcmp (a # as) [] = (if (of_char a :: nat) = 0 then 0 else 1)"
| "strcmp (a # as) (b # bs) =
     (if (of_char a :: nat) < of_char b then -1
      else if (of_char b :: nat) < of_char a then 1
      else strcmp as bs)"

text \<open>
  \<^verbatim>\<open>strncpy(dst, src, n)\<close> fills the \<open>n\<close> bytes of \<open>dst\<close>: the bytes of \<open>src\<close>, padded
  with NUL; when \<open>src\<close> has \<open>n\<close> bytes or more, no NUL is written. Reading the array
  as a string (\<open>cstr\<close>) stops at the first NUL; with no NUL in the array the read
  runs off its end, which is undefined behaviour (\<open>None\<close>).
\<close>

definition strncpy :: "nat \<Rightarrow> string \<Rightarrow> char list" where
  "strncpy n src = take n (src @ replicate n (CHR 0x00))"

definition cstr :: "char list \<Rightarrow> string option" where
  "cstr buf = (if CHR 0x00 \<in> set buf then Some (takeWhile (\<lambda>c. c \<noteq> CHR 0x00) buf) else None)"

subsection \<open>The conversions of \<^verbatim>\<open>sscanf\<close> used on file names\<close>

text \<open>
  \<open>hex_digits w s\<close> reads at most \<open>w\<close> hexadecimal digits from the front of \<open>s\<close>
  and returns their values with the unread rest.
\<close>

fun hex_digits :: "nat \<Rightarrow> string \<Rightarrow> nat list \<times> string" where
  "hex_digits w [] = ([], [])"
| "hex_digits w (c # cs) =
     (if w = 0 then ([], c # cs)
      else case hexval c of
             None \<Rightarrow> ([], c # cs)
           | Some d \<Rightarrow> (case hex_digits (w - 1) cs of (ds, r) \<Rightarrow> (d # ds, r)))"

fun hex_acc :: "nat \<Rightarrow> nat list \<Rightarrow> nat" where
  "hex_acc a [] = a"
| "hex_acc a (d # ds) = hex_acc (16 * a + d) ds"

definition hex_value :: "nat list \<Rightarrow> nat" where
  "hex_value ds = hex_acc 0 ds"

text \<open>
  The conversion \<^verbatim>\<open>%<w>lx\<close>, as the GNU C library performs it: white space is
  skipped (it does not count against the width), then an optional sign and an
  optional \<^verbatim>\<open>0x\<close> prefix are read within the width, then hexadecimal digits.
  With no digit and no prefix the conversion fails (\<open>None\<close>); at the end of the
  input it fails too. A minus sign negates the value as an \<^verbatim>\<open>unsigned long\<close>.
\<close>

definition scan_lx :: "nat \<Rightarrow> string \<Rightarrow> (nat \<times> string) option" where
  "scan_lx w s =
     (case dropWhile isspace s of
        [] \<Rightarrow> None
      | c # cs \<Rightarrow>
          (let sgn = (c = CHR ''-'' \<or> c = CHR ''+'');
               s2 = (if sgn then cs else c # cs);
               w2 = (if sgn then w - 1 else w);
               pre = (case s2 of
                        c0 # cx # r \<Rightarrow> 2 \<le> w2 \<and> c0 = CHR ''0'' \<and> (cx = CHR ''x'' \<or> cx = CHR ''X'')
                      | _ \<Rightarrow> False);
               s3 = (if pre then drop 2 s2 else s2);
               w3 = (if pre then w2 - 2 else w2)
           in case hex_digits w3 s3 of
                (ds, rest) \<Rightarrow>
                  if ds = [] \<and> \<not> pre then None
                  else Some (if c = CHR ''-'' then (2 ^ 64 - hex_value ds) mod 2 ^ 64 else hex_value ds,
                             rest)))"

text \<open>
  \<^verbatim>\<open>sscanf(name, "%c%5lx%8lx", &queue, &jobno, &ctm)\<close>: the three values when the
  call returns 3, \<open>None\<close> when it returns anything else. Whatever follows the
  third field is not looked at.
\<close>

definition sscanf_name :: "string \<Rightarrow> (char \<times> nat \<times> nat) option" where
  "sscanf_name name =
     (case name of
        [] \<Rightarrow> None
      | q # s \<Rightarrow>
          (case scan_lx 5 s of
             None \<Rightarrow> None
           | Some (jobno, s') \<Rightarrow>
               (case scan_lx 8 s' of
                  None \<Rightarrow> None
                | Some (ctm, _) \<Rightarrow> Some (q, jobno, ctm))))"

subsection \<open>The file name encoding\<close>

text \<open>
  Modelled from the spec: the encoder of job file names belongs to the submission
  tool, which is not among the sources. The spec gives the name as one queue byte,
  5 hexadecimal digits of the serial number and 8 hexadecimal digits of the
  scheduled minute; the digits are taken lower case and zero padded.
\<close>

definition hexdigit :: "nat \<Rightarrow> char" where
  "hexdigit d = ''0123456789abcdef'' ! d"

fun be_digits :: "nat \<Rightarrow> nat \<Rightarrow> nat list" where
  "be_digits w n = (if w = 0 then [] else (n div 16 ^ (w - 1)) mod 16 # be_digits (w - 1) n)"

declare be_digits.simps [simp del]

definition hex_pad :: "nat \<Rightarrow> nat \<Rightarrow> string" where
  "hex_pad w n = map hexdigit (be_digits w n)"

definition encode_name :: "char \<Rightarrow> nat \<Rightarrow> nat \<Rightarrow> string" where
  "encode_name q serial minute = q # hex_pad 5 serial @ hex_pad 8 minute"

definition queue_letter :: "char \<Rightarrow> bool" where
  "queue_letter q = (isupper q \<or> islower q)"

text \<open>A valid job file name is the encoding of a queue letter, a serial number
  that fits 5 digits and a minute that fits 8 digits.\<close>

definition valid_name :: "string \<Rightarrow> bool" where
  "valid_name name =
     (case name of
        [] \<Rightarrow> False
      | q # body \<Rightarrow> queue_letter q \<and> length body = 13 \<and>
          list_all (\<lambda>c. c \<in> set ''0123456789abcdef'') body)"


subsection \<open>The spool directory\<close>

text \<open>
  The directory is the list of its entries, in the order \<^verbatim>\<open>readdir\<close> returns them,
  each a name with an inode number. The link count of an inode is the number of
  entries that name it plus the links to it from elsewhere (\<open>i_extern\<close>). The
  content of a file is kept as what \<^verbatim>\<open>fscanf\<close> converts from its three header
  lines (\<open>i_header\<close>, \<open>None\<close> when fewer than four fields convert). A symbolic
  link carries the inode its path resolves to (\<open>i_target\<close>).
\<close>

datatype ftype = S_IFREG | S_IFLNK | S_IFDIR | S_IFOTHER

record header =
  nuid :: int
  ngid :: int
  mailname :: string
  send_mail :: int

record inode =
  i_dev :: nat
  i_type :: ftype
  i_xusr :: bool
  i_uid :: nat
  i_gid :: nat
  i_size :: nat
  i_extern :: nat
  i_target :: nat
  i_header :: "header option"

record fs =
  dir :: "(string \<times> nat) list"
  inodes :: "nat \<Rightarrow> inode option"
  dir_mtime :: int

record struct_stat =
  st_dev :: nat
  st_ino :: nat
  st_type :: ftype
  st_xusr :: bool
  st_nlink :: nat
  st_uid :: nat
  st_gid :: nat
  st_size :: nat

definition nlink :: "fs \<Rightarrow> nat \<Rightarrow> nat" where
  "nlink f ino =
     length (filter (\<lambda>e. snd e = ino) (dir f)) +
     (case inodes f ino of None \<Rightarrow> 0 | Some nd \<Rightarrow> i_extern nd)"

definition fstat :: "fs \<Rightarrow> nat \<Rightarrow> struct_stat option" where
  "fstat f ino =
     (case inodes f ino of
        None \<Rightarrow> None
      | Some nd \<Rightarrow>
          Some \<lparr>st_dev = i_dev nd, st_ino = ino, st_type = i_type nd, st_xusr = i_xusr nd,
                st_nlink = nlink f ino, st_uid = i_uid nd, st_gid = i_gid nd,
                st_size = i_size nd\<rparr>)"

definition lstat :: "fs \<Rightarrow> string \<Rightarrow> struct_stat option" where
  "lstat f name = (case map_of (dir f) name of None \<Rightarrow> None | Some ino \<Rightarrow> fstat f ino)"

text \<open>\<open>resolve\<close> is the inode a path leads to when symbolic links are followed.\<close>

definition resolve :: "fs \<Rightarrow> string \<Rightarrow> nat option" where
  "resolve f name =
     (case map_of (dir f) name of
        None \<Rightarrow> None
      | Some ino \<Rightarrow>
          (case inodes f ino of
             None \<Rightarrow> None
           | Some nd \<Rightarrow>
               if i_type nd = S_IFLNK then
                 (case inodes f (i_target nd) of
                    None \<Rightarrow> None
                  | Some t \<Rightarrow> if i_type t = S_IFLNK then None else Some (i_target nd))
               else Some ino))"

definition stat :: "fs \<Rightarrow> string \<Rightarrow> struct_stat option" where
  "stat f name = (case resolve f name of None \<Rightarrow> None | Some ino \<Rightarrow> fstat f ino)"

text \<open>\<^verbatim>\<open>unlink\<close> and \<^verbatim>\<open>link\<close> at time \<open>t\<close>; a change of the directory sets its
  modification time.\<close>

definition unlink :: "int \<Rightarrow> fs \<Rightarrow> string \<Rightarrow> fs" where
  "unlink t f name =
     (if map_of (dir f) name = None then f
      else f\<lparr>dir := filter (\<lambda>e. fst e \<noteq> name) (dir f), dir_mtime := t\<rparr>)"

datatype errno = EEXIST | ENOENT

definition link :: "int \<Rightarrow> fs \<Rightarrow> string \<Rightarrow> string \<Rightarrow> errno + fs" where
  "link t f oldname newname =
     (case map_of (dir f) oldname of
        None \<Rightarrow> Inl ENOENT
      | Some ino \<Rightarrow>
          if map_of (dir f) newname \<noteq> None then Inl EEXIST
          else Inr (f\<lparr>dir := dir f @ [(newname, ino)], dir_mtime := t\<rparr>))"

subsection \<open>The daemon: \<^verbatim>\<open>run_file\<close> up to the fork, and \<^verbatim>\<open>run_loop\<close>\<close>

datatype 'a result = Done 'a | Exit string | Undefined

text \<open>The values of a \<^verbatim>\<open>double\<close> and the comparisons \<^verbatim>\<open><\<close> and \<^verbatim>\<open><=\<close> on them.\<close>

datatype double = Fin real | PInf | MInf | NaN

fun dless :: "double \<Rightarrow> double \<Rightarrow> bool" where
  "dless (Fin a) (Fin b) = (a < b)"
| "dless (Fin a) PInf = True"
| "dless MInf (Fin b) = True"
| "dless MInf PInf = True"
| "dless x y = False"

fun dle :: "double \<Rightarrow> double \<Rightarrow> bool" where
  "dle (Fin a) (Fin b) = (a \<le> b)"
| "dle (Fin a) PInf = True"
| "dle MInf (Fin b) = True"
| "dle MInf MInf = True"
| "dle MInf PInf = True"
| "dle PInf PInf = True"
| "dle x y = False"

text \<open>
  What the daemon does that other processes can see: \<open>Invoke\<close> is a call of
  \<^verbatim>\<open>run_file\<close> with its arguments, \<open>Twice\<close> the warning when the lock exists already,
  \<open>Fork\<close> the creation of the job's child, \<open>Sample\<close> a call of \<^verbatim>\<open>getloadavg\<close>.
\<close>

datatype event =
    Invoke string nat nat
  | Twice string
  | Fork string nat nat
  | Sample

record env =
  e_fork :: "string \<Rightarrow> bool"
  e_getloadavg :: "double option"

definition CHECK_INTERVAL :: int where
  "CHECK_INTERVAL = 3600"

definition isbatch :: "char \<Rightarrow> bool" where
  "isbatch queue = (isupper queue \<or> queue = CHR ''b'')"

text \<open>
  The part of \<^verbatim>\<open>run_file\<close> that runs in the daemon: the job number is read from
  the name with \<^verbatim>\<open>"%c%5lx"\<close> and printed into the 9 bytes of \<^verbatim>\<open>jobbuf\<close> with \<^verbatim>\<open>"%8lu"\<close>
  (which overruns them from \<open>10 ^ 8\<close> on, and prints an unset variable when the
  conversion fails), the lock is taken with \<^verbatim>\<open>link\<close>, the child is forked, and the
  daemon returns at once. The rest of the function runs in the child (\<open>run_child\<close>
  below).
\<close>

definition run_file :: "env \<Rightarrow> int \<Rightarrow> fs \<Rightarrow> string \<Rightarrow> nat \<Rightarrow> nat \<Rightarrow> (fs \<times> event list) result" where
  "run_file e now f filename uid gid =
     (case filename of
        [] \<Rightarrow> Undefined
      | queue # rest \<Rightarrow>
          (case scan_lx 5 rest of
             None \<Rightarrow> Undefined
           | Some (jobno, _) \<Rightarrow>
               if 10 ^ 8 \<le> jobno then Undefined
               else
                 (let newname = CHR ''='' # rest in
                  case link now f filename newname of
                    Inl EEXIST \<Rightarrow> Done (f, [Invoke filename uid gid, Twice filename])
                  | Inl ENOENT \<Rightarrow> Exit ''Can't link execution file''
                  | Inr f' \<Rightarrow>
                      if \<not> e_fork e filename then Exit ''Cannot fork''
                      else Done (f', [Invoke filename uid gid, Fork filename uid gid]))))"

text \<open>The locals of \<^verbatim>\<open>run_loop\<close> that the loop over the directory entries changes,
  with the spool and the events so far.\<close>

record scan =
  s_fs :: fs
  next_job :: int
  nothing_to_do :: bool
  run_batch :: nat
  batch_name :: "char list"
  batch_uid :: nat
  batch_gid :: nat
  batch_queue :: char
  s_events :: "event list"

text \<open>\<^verbatim>\<open>run_time = (time_t) ctm * 60\<close>, the cast of an \<^verbatim>\<open>unsigned long\<close> to the signed
  64-bit \<^verbatim>\<open>time_t\<close> written out.\<close>

definition run_time_of :: "nat \<Rightarrow> int" where
  "run_time_of ctm = (if ctm < 2 ^ 63 then int ctm else int ctm - 2 ^ 64) * 60"

text \<open>One turn of the \<^verbatim>\<open>while ((dirent = readdir(spool)) != NULL)\<close> loop, for the
  entry named \<open>d\<close>.\<close>

definition scan_entry :: "env \<Rightarrow> int \<Rightarrow> scan \<Rightarrow> string \<Rightarrow> scan result" where
  "scan_entry e now s d =
     (case sscanf_name d of
        None \<Rightarrow> Done s
      | Some (queue, jobno, ctm) \<Rightarrow>
          (case stat (s_fs s) d of
             None \<Rightarrow> Done s
           | Some buf \<Rightarrow>
               if st_type buf \<noteq> S_IFREG then Done s
               else if \<not> st_xusr buf then Done (s\<lparr>nothing_to_do := False\<rparr>)
               else
                 (let run_time = run_time_of ctm in
                  if queue = CHR ''='' then
                    (if st_nlink buf = 1 \<and> run_time + CHECK_INTERVAL \<le> now
                     then Done (s\<lparr>s_fs := unlink now (s_fs s) d\<rparr>)
                     else Done s)
                  else if \<not> (isupper queue \<or> islower queue) then Done s
                  else if st_nlink buf > 1 then
                    (if run_time + CHECK_INTERVAL \<le> now then
                       (case cstr ((strncpy 15 d)[0 := CHR ''='']) of
                          None \<Rightarrow> Undefined
                        | Some lock_name \<Rightarrow>
                            Done (s\<lparr>s_fs := unlink now (s_fs s) lock_name,
                                    next_job := now, nothing_to_do := False\<rparr>))
                     else Done s)
                  else
                    (let s1 = s\<lparr>nothing_to_do := False\<rparr> in
                     if run_time > now then
                       (if next_job s1 > run_time then Done (s1\<lparr>next_job := run_time\<rparr>)
                        else Done s1)
                     else if isbatch queue then
                       (case cstr (batch_name s1) of
                          None \<Rightarrow> Undefined
                        | Some bn \<Rightarrow>
                            (let s2 = s1\<lparr>run_batch := run_batch s1 + 1\<rparr> in
                             if strcmp bn d > 0 then
                               Done (s2\<lparr>batch_name := strncpy 15 d, batch_uid := st_uid buf,
                                        batch_gid := st_gid buf, batch_queue := queue\<rparr>)
                             else Done s2))
                     else if run_time \<le> now then
                       (case run_file e now (s_fs s1) d (st_uid buf) (st_gid buf) of
                          Done (f', evs) \<Rightarrow> Done (s1\<lparr>s_fs := f', s_events := s_events s1 @ evs\<rparr>)
                        | Exit m \<Rightarrow> Exit m
                        | Undefined \<Rightarrow> Undefined)
                     else Done s1))))"

text \<open>The loop, over the names \<^verbatim>\<open>readdir\<close> returns.\<close>

fun scan_dir :: "env \<Rightarrow> int \<Rightarrow> scan \<Rightarrow> string list \<Rightarrow> scan result" where
  "scan_dir e now s [] = Done s"
| "scan_dir e now s (d # ds) =
     (case scan_entry e now s d of
        Done s' \<Rightarrow> scan_dir e now s' ds
      | Exit m \<Rightarrow> Exit m
      | Undefined \<Rightarrow> Undefined)"

text \<open>The file-scope and static variables that live across calls of \<^verbatim>\<open>run_loop\<close>,
  and the two settings \<^verbatim>\<open>load_avg\<close> and \<^verbatim>\<open>batch_interval\<close>.\<close>

record daemon =
  last_chg :: int
  d_nothing_to_do :: bool
  next_batch :: int
  load_avg :: double
  batch_interval :: nat

definition scan_init :: "int \<Rightarrow> fs \<Rightarrow> scan" where
  "scan_init now f =
     \<lparr>s_fs = f, next_job = now + CHECK_INTERVAL, nothing_to_do = True, run_batch = 0,
      batch_name = ''z2345678901234'' @ [CHR 0x00], batch_uid = 2 ^ 32 - 1,
      batch_gid = 2 ^ 32 - 1, batch_queue = CHR 0x00, s_events = []\<rparr>"

text \<open>The end of \<^verbatim>\<open>run_loop\<close>, after \<^verbatim>\<open>closedir\<close>: the batch admission.\<close>

definition admit_batch :: "env \<Rightarrow> int \<Rightarrow> daemon \<Rightarrow> scan \<Rightarrow> (daemon \<times> scan) result" where
  "admit_batch e now dm s =
     (if run_batch s \<noteq> 0 \<and> next_batch dm \<le> now then
        (let dm1 = dm\<lparr>next_batch := now + int (batch_interval dm)\<rparr>;
             currlavg = (case e_getloadavg e of None \<Rightarrow> Fin 0 | Some l \<Rightarrow> l);
             s1 = s\<lparr>s_events := s_events s @ [Sample]\<rparr>
         in if dless currlavg (load_avg dm1) then
              (case cstr (batch_name s1) of
                 None \<Rightarrow> Undefined
               | Some bn \<Rightarrow>
                   (case run_file e now (s_fs s1) bn (batch_uid s1) (batch_gid s1) of
                      Done (f', evs) \<Rightarrow>
                        Done (dm1, s1\<lparr>s_fs := f', s_events := s_events s1 @ evs,
                                       run_batch := run_batch s1 - 1\<rparr>)
                    | Exit m \<Rightarrow> Exit m
                    | Undefined \<Rightarrow> Undefined))
            else Done (dm1, s1))
      else Done (dm, s))"

text \<open>\<^verbatim>\<open>run_loop\<close>: the new statics, the spool, the events of the cycle and the
  returned time of the next job.\<close>

definition run_loop :: "env \<Rightarrow> int \<Rightarrow> daemon \<Rightarrow> fs \<Rightarrow> (daemon \<times> fs \<times> event list \<times> int) result" where
  "run_loop e now dm f =
     (let dm1 = (if next_batch dm = 0 then dm\<lparr>next_batch := now\<rparr> else dm) in
      if d_nothing_to_do dm1 \<and> dir_mtime f \<le> last_chg dm1
      then Done (dm1, f, [], now + CHECK_INTERVAL)
      else
        (let dm2 = dm1\<lparr>last_chg := dir_mtime f\<rparr> in
         case scan_dir e now (scan_init now f) (map fst (dir f)) of
           Exit m \<Rightarrow> Exit m
         | Undefined \<Rightarrow> Undefined
         | Done s \<Rightarrow>
             (case admit_batch e now dm2 s of
                Exit m \<Rightarrow> Exit m
              | Undefined \<Rightarrow> Undefined
              | Done (dm3, s') \<Rightarrow>
                  if run_batch s' \<noteq> 0 \<and> next_batch dm3 < next_job s'
                  then Done (dm3\<lparr>d_nothing_to_do := False\<rparr>, s_fs s', s_events s',
                             next_batch dm3)
                  else Done (dm3\<lparr>d_nothing_to_do := nothing_to_do s'\<rparr>, s_fs s',
                             s_events s', next_job s'))))"

text \<open>
  The setting of the load ceiling in \<^verbatim>\<open>main\<close>. Without the option \<^verbatim>\<open>-l\<close> it is the
  default \<^verbatim>\<open>LOADAVG_MX\<close>, a constant of the build configuration that is passed in
  here. With the option, \<open>v\<close> is what \<^verbatim>\<open>sscanf(optarg, "%lf", &load_avg)\<close> converts
  (the C library converts \<^verbatim>\<open>nan\<close> and \<^verbatim>\<open>inf\<close> too), and
  \<^verbatim>\<open>if (load_avg <= 0.) load_avg = LOADAVG_MX\<close> follows.
\<close>

definition set_load_avg :: "double \<Rightarrow> double option \<Rightarrow> double" where
  "set_load_avg LOADAVG_MX opt =
     (case opt of None \<Rightarrow> LOADAVG_MX | Some v \<Rightarrow> if dle v (Fin 0) then LOADAVG_MX else v)"

subsection \<open>The job's child: the rest of \<^verbatim>\<open>run_file\<close>\<close>

text \<open>
  What the child does that other processes can see, in program order: \<open>Abort\<close> is
  \<^verbatim>\<open>perr\<close> or \<^verbatim>\<open>pabort\<close>; \<open>Unlink_job\<close> the \<^verbatim>\<open>unlink\<close> of the job file; \<open>Create_output\<close>
  the creation of the output file with its mail header; \<open>Exec_sh\<close> the interpreter,
  started in a second child with the user id, group id and nice increment given;
  \<open>Wait\<close> the return of \<^verbatim>\<open>waitpid\<close>; \<open>Unlink_output\<close> and \<open>Unlink_lock\<close> the two
  removals; \<open>Mail\<close> the \<^verbatim>\<open>execl\<close> of the mail command for the recipient;
  \<open>Exit_success\<close> the final \<^verbatim>\<open>exit\<close> when no mail is sent.
\<close>

datatype cevent =
    Abort string
  | Unlink_job string
  | Create_output string nat
  | Exec_sh nat int int
  | Wait
  | Unlink_output string
  | Unlink_lock string
  | Mail string
  | Exit_success

text \<open>
  The environment of the child: whether \<^verbatim>\<open>getpwuid\<close> finds the user; what other
  processes do to the spool between the child's \<^verbatim>\<open>fopen\<close> with \<^verbatim>\<open>fstat\<close> and its
  \<^verbatim>\<open>lstat\<close>; and the size of the output file when \<^verbatim>\<open>waitpid\<close> has returned (the
  job writes to the file through its standard output and may also truncate it).
\<close>

record cenv =
  c_getpwuid :: "nat \<Rightarrow> bool"
  c_tamper :: "fs \<Rightarrow> fs"
  c_final_size :: nat

text \<open>
  The checks of the child before it unlinks the job file, in the order of the
  source. \<open>uid\<close> is the owner the scan found and passed to \<^verbatim>\<open>run_file\<close>. The result
  is the spool as the checks leave it, and the message of the failing check or the
  header read. The comparison \<^verbatim>\<open>nuid != uid\<close> is between an \<^verbatim>\<open>int\<close> and the unsigned
  32-bit \<^verbatim>\<open>uid_t\<close>, so \<open>nuid\<close> is converted first.
\<close>

definition validate :: "cenv \<Rightarrow> fs \<Rightarrow> string \<Rightarrow> nat \<Rightarrow> fs \<times> (string + header)" where
  "validate c f filename uid =
     (if \<not> c_getpwuid c uid then (f, Inl ''Userid not found - aborting job'')
      else case resolve f filename of
        None \<Rightarrow> (f, Inl ''Cannot open input file'')
      | Some ino \<Rightarrow>
          (case fstat f ino of
             None \<Rightarrow> (f, Inl ''Error in fstat of input file descriptor'')
           | Some buf \<Rightarrow>
               (let f1 = c_tamper c f in
                case lstat f1 filename of
                  None \<Rightarrow> (f1, Inl ''Error in fstat of input file'')
                | Some lbuf \<Rightarrow>
                    if st_type lbuf = S_IFLNK
                    then (f1, Inl ''Symbolic link encountered in job - aborting'')
                    else if st_dev lbuf \<noteq> st_dev buf \<or> st_ino lbuf \<noteq> st_ino buf \<or>
                            st_uid lbuf \<noteq> st_uid buf \<or> st_gid lbuf \<noteq> st_gid buf \<or>
                            st_size lbuf \<noteq> st_size buf
                    then (f1, Inl ''Somebody changed files from under us for job - aborting'')
                    else if st_nlink buf > 2
                    then (f1, Inl ''Somebody is trying to run a linked script for job'')
                    else
                      (case (case inodes f1 ino of None \<Rightarrow> None | Some nd \<Rightarrow> i_header nd) of
                         None \<Rightarrow> (f1, Inl ''File is in wrong format - aborting'')
                       | Some h \<Rightarrow>
                           if take 1 (mailname h) = ''-''
                           then (f1, Inl ''illegal mail name in job'')
                           else if nat (nuid h mod 2 ^ 32) \<noteq> uid
                           then (f1, Inl ''Job - userid does not match file uid'')
                           else (f1, Inr h)))))"

text \<open>The size of the output file after the five \<^verbatim>\<open>write_string\<close> calls; \<^verbatim>\<open>jobbuf\<close>
  holds the 8 characters of \<^verbatim>\<open>"%8lu"\<close>.\<close>

definition header_size :: "string \<Rightarrow> nat" where
  "header_size mail =
     length ''Subject: Output from your job '' + 8 + 1 + length ''To: '' + length mail + 2"

text \<open>The condition under which the mail command is run, with \<open>size0\<close> the size of
  the output file after the header (\<^verbatim>\<open>size\<close> in the source) and \<open>final\<close> its size
  after the wait (\<^verbatim>\<open>buf.st_size\<close>).\<close>

definition mail_wanted :: "int \<Rightarrow> nat \<Rightarrow> nat \<Rightarrow> bool" where
  "mail_wanted flag size0 final = ((flag \<noteq> -1 \<and> final \<noteq> size0) \<or> flag = 1)"

text \<open>
  The child of \<^verbatim>\<open>run_file\<close> at time \<open>t\<close>, with the arguments of the call. It
  inherits \<^verbatim>\<open>queue\<close>, \<^verbatim>\<open>jobno\<close>, \<^verbatim>\<open>jobbuf\<close> and \<^verbatim>\<open>newname\<close> as the daemon computed them
  before the fork.
\<close>

definition run_child :: "cenv \<Rightarrow> int \<Rightarrow> fs \<Rightarrow> string \<Rightarrow> nat \<Rightarrow> nat \<Rightarrow> (fs \<times> cevent list) result" where
  "run_child c t f filename uid gid =
     (case filename of
        [] \<Rightarrow> Undefined
      | queue # rest \<Rightarrow>
          (case scan_lx 5 rest of
             None \<Rightarrow> Undefined
           | Some (jobno, _) \<Rightarrow>
               if 10 ^ 8 \<le> jobno then Undefined
               else
                 (let newname = CHR ''='' # rest in
                  case validate c f filename uid of
                    (f1, Inl m) \<Rightarrow> Done (f1, [Abort m])
                  | (f1, Inr h) \<Rightarrow>
                      (let f2 = unlink t f1 filename;
                           size0 = header_size (mailname h);
                           final = c_final_size c;
                           f3 = unlink t f2 newname
                       in Done (f3,
                            [Unlink_job filename,
                             Create_output filename size0,
                             Exec_sh uid (ngid h) ((int (tolower queue) - 97 + 1) * 2),
                             Wait,
                             Unlink_output filename,
                             Unlink_lock newname] @
                            (if mail_wanted (send_mail h) size0 final
                             then [Mail (mailname h)] else [Exit_success]))))))"

subsection \<open>A small spool, used where a property is checked on a concrete run\<close>

text \<open>One job of user 1000 for queue \<open>a\<close>, serial 1, due at minute 1; \<open>ex_locked\<close> is
  the spool once the daemon has taken the lock.\<close>

definition child_events :: "(fs \<times> cevent list) result \<Rightarrow> cevent list" where
  "child_events r = (case r of Done (f, evs) \<Rightarrow> evs | _ \<Rightarrow> [])"

definition ex_header :: header where
  "ex_header = \<lparr>nuid = 1000, ngid = 1000, mailname = ''alice'', send_mail = 0\<rparr>"

definition ex_inode :: inode where
  "ex_inode = \<lparr>i_dev = 1, i_type = S_IFREG, i_xusr = True, i_uid = 1000, i_gid = 1000,
     i_size = 60, i_extern = 0, i_target = 0, i_header = Some ex_header\<rparr>"

definition ex_fs :: fs where
  "ex_fs = \<lparr>dir = [(''a0000100000001'', 7)], inodes = Map.empty(7 \<mapsto> ex_inode), dir_mtime = 50\<rparr>"

definition ex_locked :: fs where
  "ex_locked = \<lparr>dir = [(''a0000100000001'', 7), (''=0000100000001'', 7)],
     inodes = Map.empty(7 \<mapsto> ex_inode), dir_mtime = 100\<rparr>"

definition ex_cenv :: "nat \<Rightarrow> cenv" where
  "ex_cenv final = \<lparr>c_getpwuid = (\<lambda>u. True), c_tamper = (\<lambda>f. f), c_final_size = final\<rparr>"

definition ex_swapped :: fs where
  "ex_swapped = \<lparr>dir = [(''a0000100000001'', 8), (''=0000100000001'', 7)],
     inodes = Map.empty(7 \<mapsto> ex_inode, 8 \<mapsto> ex_inode\<lparr>i_dev := 2, i_uid := 1001, i_size := 99\<rparr>),
     dir_mtime = 100\<rparr>"

definition ex_env :: env where
  "ex_env = \<lparr>e_fork = (\<lambda>n. True), e_getloadavg = Some (Fin (1 / 2))\<rparr>"



definition ex_extra_locked :: fs where
  "ex_extra_locked = \<lparr>dir = [(''a0000100000001'', 7), (''=0000100000001'', 7)],
     inodes = Map.empty(7 \<mapsto> ex_inode\<lparr>i_extern := 1\<rparr>), dir_mtime = 100\<rparr>"

definition ex_extra :: fs where
  "ex_extra = \<lparr>dir = [(''a0000100000001'', 7)],
     inodes = Map.empty(7 \<mapsto> ex_inode\<lparr>i_extern := 1\<rparr>), dir_mtime = 3700\<rparr>"

definition ex_daemon :: daemon where
  "ex_daemon = \<lparr>last_chg = 0, d_nothing_to_do = False, next_batch = 0, load_avg = Fin (4 / 5),
     batch_interval = 60\<rparr>"

subsection \<open>Notions used to state the properties of a scan\<close>

text \<open>An event is the admission of a batch job when it is a call of \<^verbatim>\<open>run_file\<close> on a
  name whose queue byte is of the batch class.\<close>

text \<open>The invariant of the loop for the batch candidate: the smallest of the
  candidates met so far is in \<open>batch_name\<close>, and \<open>run_batch\<close> counts them.\<close>

definition batch_invoke :: "event \<Rightarrow> bool" where
  "batch_invoke ev =
     (case ev of
        Invoke n u g \<Rightarrow> (case n of [] \<Rightarrow> False | q # _ \<Rightarrow> isbatch q)
      | _ \<Rightarrow> False)"

text \<open>
  An entry is a due batch job in a spool when it passes every filter of the loop
  up to the test \<^verbatim>\<open>isbatch(queue)\<close>: its name parses, it is a regular file marked
  executable, its queue byte is a letter of the batch class, it is not locked and
  its time has come.
\<close>

definition batch_due :: "int \<Rightarrow> fs \<Rightarrow> string \<Rightarrow> bool" where
  "batch_due now f d =
     (case sscanf_name d of
        None \<Rightarrow> False
      | Some (queue, jobno, ctm) \<Rightarrow>
          (case stat f d of
             None \<Rightarrow> False
           | Some buf \<Rightarrow>
               st_type buf = S_IFREG \<and> st_xusr buf \<and> queue \<noteq> CHR ''='' \<and>
               (isupper queue \<or> islower queue) \<and> \<not> 1 < st_nlink buf \<and>
               \<not> now < run_time_of ctm \<and> isbatch queue))"

text \<open>The due batch jobs of a scan: the entries that are due batch jobs in the spool
  as it is when the loop reaches them.\<close>

fun batch_candidates :: "env \<Rightarrow> int \<Rightarrow> scan \<Rightarrow> string list \<Rightarrow> string list" where
  "batch_candidates e now s [] = []"
| "batch_candidates e now s (d # ds) =
     (case scan_entry e now s d of
        Done s' \<Rightarrow> (if batch_due now (s_fs s) d then [d] else []) @ batch_candidates e now s' ds
      | _ \<Rightarrow> [])"

text \<open>
  The loop of \<^verbatim>\<open>main\<close> in daemon mode, over the cycles it makes: each cycle has its
  environment, its time \<^verbatim>\<open>now = time(NULL)\<close> and the spool as the daemon finds it
  (other processes change the spool between cycles). The result lists, for each
  cycle, its time, its events and \<^verbatim>\<open>next_batch\<close> after it.
\<close>

fun daemon_cycles :: "daemon \<Rightarrow> (env \<times> int \<times> fs) list \<Rightarrow> (daemon \<times> (int \<times> event list \<times> int) list) result" where
  "daemon_cycles dm [] = Done (dm, [])"
| "daemon_cycles dm ((e, now, f) # cs) =
     (case run_loop e now dm f of
        Done (dm1, f', evs, nj) \<Rightarrow>
          (case daemon_cycles dm1 cs of
             Done (dm2, tr) \<Rightarrow> Done (dm2, (now, evs, next_batch dm1) # tr)
           | Exit m \<Rightarrow> Exit m
           | Undefined \<Rightarrow> Undefined)
      | Exit m \<Rightarrow> Exit m
      | Undefined \<Rightarrow> Undefined)"

subsection \<open>A spool with two due batch jobs, and invariants of the scan\<close>

definition batch_inv :: "scan \<Rightarrow> string list \<Rightarrow> bool" where
  "batch_inv s cs =
     (run_batch s = length cs \<and>
      (if cs = [] then batch_name s = ''z2345678901234'' @ [CHR 0x00]
       else \<exists>m\<in>set cs. (\<forall>c\<in>set cs. m \<le> c) \<and> batch_name s = strncpy 15 m))"

definition ex_batch :: fs where
  "ex_batch = \<lparr>dir = [(''C0000200000001'', 8), (''B0000100000001'', 7)],
     inodes = Map.empty(7 \<mapsto> ex_inode, 8 \<mapsto> ex_inode), dir_mtime = 50\<rparr>"

definition ex_batch_locked :: fs where
  "ex_batch_locked = \<lparr>dir = [(''C0000200000001'', 8), (''B0000100000001'', 7), (''=0000100000001'', 7)],
     inodes = Map.empty(7 \<mapsto> ex_inode, 8 \<mapsto> ex_inode), dir_mtime = 100\<rparr>"

definition ex_env_busy :: env where
  "ex_env_busy = \<lparr>e_fork = (\<lambda>n. True), e_getloadavg = Some (Fin 1)\<rparr>"

definition ex_env_noload :: env where
  "ex_env_noload = \<lparr>e_fork = (\<lambda>n. True), e_getloadavg = None\<rparr>"

definition ex_daemon_nan :: daemon where
  "ex_daemon_nan = \<lparr>last_chg = 0, d_nothing_to_do = False, next_batch = 0,
     load_avg = set_load_avg (Fin (4 / 5)) (Some NaN), batch_interval = 60\<rparr>"

definition ex_scanned :: scan where
  "ex_scanned = \<lparr>s_fs = ex_batch, next_job = 3700, nothing_to_do = False, run_batch = 2,
     batch_name = ''B0000100000001'' @ [CHR 0x00], batch_uid = 1000, batch_gid = 1000,
     batch_queue = CHR ''B'', s_events = []\<rparr>"

subsection \<open>Notions for the reclaiming of stale locks\<close>

text \<open>An inode has one name in the spool, or none; and a spool that holds only an
  orphaned lock.\<close>

definition only_name :: "fs \<Rightarrow> string \<Rightarrow> nat \<Rightarrow> bool" where
  "only_name f d i = (map_of (dir f) d = Some i \<and> filter (\<lambda>e. snd e = i) (dir f) = [(d, i)])"

definition no_name :: "fs \<Rightarrow> nat \<Rightarrow> bool" where
  "no_name f i = (i \<notin> snd ` set (dir f))"

definition ex_orphan :: fs where
  "ex_orphan = \<lparr>dir = [(''=0000100000001'', 7)], inodes = Map.empty(7 \<mapsto> ex_inode),
     dir_mtime = 50\<rparr>"

subsection \<open>The daemon and the children of its jobs, as processes\<close>

text \<open>
  After \<^verbatim>\<open>fork\<close> the daemon returns from \<^verbatim>\<open>run_file\<close> and the child goes on alone; the
  daemon reaps children only in its \<^verbatim>\<open>SIGCHLD\<close> handler, which does not block. A
  schedule of a cycle is an interleaving of the events of the daemon (\<open>D\<close>) with
  the events of the children (\<open>C\<close>, with the name of the job): the daemon's events
  in their order, each child's events in their order, and no event of a child
  before the \<open>Fork\<close> that creates it. A schedule runs the jobs one at a time when
  every event of a child belongs to the job the daemon invoked last.
  \<open>started_in_turn\<close> says of the daemon's events that each call of \<^verbatim>\<open>run_file\<close> is
  followed at once by its fork (or by the warning that the lock exists);
  \<open>job_order\<close> says of a child's events that they are an abort alone, or the
  commit, the output file, the interpreter, the wait, the two removals and the
  mail or the plain exit, in this order.
\<close>

datatype gevent = D event | C string cevent

fun daemon_part :: "gevent list \<Rightarrow> event list" where
  "daemon_part [] = []"
| "daemon_part (D ev # g) = ev # daemon_part g"
| "daemon_part (C n ce # g) = daemon_part g"

fun child_part :: "string \<Rightarrow> gevent list \<Rightarrow> cevent list" where
  "child_part n [] = []"
| "child_part n (D ev # g) = child_part n g"
| "child_part n (C n' ce # g) = (if n' = n then ce # child_part n g else child_part n g)"

fun forked_first :: "string list \<Rightarrow> gevent list \<Rightarrow> bool" where
  "forked_first F [] = True"
| "forked_first F (D (Fork n u g) # xs) = forked_first (n # F) xs"
| "forked_first F (D ev # xs) = forked_first F xs"
| "forked_first F (C n ce # xs) = (n \<in> set F \<and> forked_first F xs)"

definition is_schedule :: "event list \<Rightarrow> (string \<times> cevent list) list \<Rightarrow> gevent list \<Rightarrow> bool" where
  "is_schedule p kids g =
     (daemon_part g = p \<and> forked_first [] g \<and>
      list_all (\<lambda>k. child_part (fst k) g = snd k) kids)"

fun one_at_a_time :: "string option \<Rightarrow> gevent list \<Rightarrow> bool" where
  "one_at_a_time cur [] = True"
| "one_at_a_time cur (D (Invoke n u g) # xs) = one_at_a_time (Some n) xs"
| "one_at_a_time cur (D ev # xs) = one_at_a_time cur xs"
| "one_at_a_time cur (C n ce # xs) = (cur = Some n \<and> one_at_a_time cur xs)"

fun started_in_turn :: "event list \<Rightarrow> bool" where
  "started_in_turn [] = True"
| "started_in_turn (Sample # xs) = started_in_turn xs"
| "started_in_turn (Invoke n u g # Fork n' u' g' # xs) =
     (n' = n \<and> u' = u \<and> g' = g \<and> started_in_turn xs)"
| "started_in_turn (Invoke n u g # Twice n' # xs) = (n' = n \<and> started_in_turn xs)"
| "started_in_turn xs = False"

definition job_order :: "cevent list \<Rightarrow> bool" where
  "job_order tr =
     ((\<exists>m. tr = [Abort m]) \<or>
      (\<exists>n sz u g k l fin. tr = [Unlink_job n, Create_output n sz, Exec_sh u g k, Wait,
                                 Unlink_output n, Unlink_lock l, fin] \<and>
         (fin = Exit_success \<or> (\<exists>m. fin = Mail m))))"

definition ex_two :: fs where
  "ex_two = \<lparr>dir = [(''a0000100000001'', 7), (''c0000200000001'', 8)],
     inodes = Map.empty(7 \<mapsto> ex_inode, 8 \<mapsto> ex_inode), dir_mtime = 50\<rparr>"

definition ex_two_locked :: fs where
  "ex_two_locked = \<lparr>dir = [(''a0000100000001'', 7), (''c0000200000001'', 8),
       (''=0000100000001'', 7), (''=0000200000001'', 8)],
     inodes = Map.empty(7 \<mapsto> ex_inode, 8 \<mapsto> ex_inode), dir_mtime = 100\<rparr>"

definition ex_two_after :: fs where
  "ex_two_after = \<lparr>dir = [(''c0000200000001'', 8), (''=0000200000001'', 8)],
     inodes = Map.empty(7 \<mapsto> ex_inode, 8 \<mapsto> ex_inode), dir_mtime = 100\<rparr>"

definition ex_job_events :: "string \<Rightarrow> string \<Rightarrow> int \<Rightarrow> cevent list" where
  "ex_job_events n l k = [Unlink_job n, Create_output n 50, Exec_sh 1000 1000 k, Wait,
      Unlink_output n, Unlink_lock l, Mail ''alice'']"

definition ex_overlap :: "gevent list" where
  "ex_overlap =
     [D (Invoke ''a0000100000001'' 1000 1000), D (Fork ''a0000100000001'' 1000 1000),
      D (Invoke ''c0000200000001'' 1000 1000), D (Fork ''c0000200000001'' 1000 1000)] @
     map (C ''a0000100000001'') (ex_job_events ''a0000100000001'' ''=0000100000001'' 2) @
     map (C ''c0000200000001'') (ex_job_events ''c0000200000001'' ''=0000200000001'' 6)"

section \<open>Properties\<close>

subsection \<open>The file name encoding round-trips\<close>

lemma lt16_cases:
  "(d::nat) < 16 \<Longrightarrow> d = 0 \<or> d = 1 \<or> d = 2 \<or> d = 3 \<or> d = 4 \<or> d = 5 \<or> d = 6 \<or> d = 7
     \<or> d = 8 \<or> d = 9 \<or> d = 10 \<or> d = 11 \<or> d = 12 \<or> d = 13 \<or> d = 14 \<or> d = 15"
  by arith

lemma hexval_hexdigit: "d < 16 \<Longrightarrow> hexval (hexdigit d) = Some d"
  by (drule lt16_cases) (elim disjE, simp_all add: hexdigit_def hexval_def)

lemma hexdigit_plain:
  "d < 16 \<Longrightarrow> \<not> isspace (hexdigit d) \<and> hexdigit d \<noteq> CHR ''-'' \<and> hexdigit d \<noteq> CHR ''+''
     \<and> hexdigit d \<noteq> CHR ''x'' \<and> hexdigit d \<noteq> CHR ''X''"
  by (drule lt16_cases) (elim disjE, simp_all add: hexdigit_def isspace_def)

lemma lower_hex_char:
  "c \<in> set ''0123456789abcdef'' \<Longrightarrow> \<exists>d<16. c = hexdigit d"
proof -
  assume "c \<in> set ''0123456789abcdef''"
  then have "c \<in> hexdigit ` {0, 1, 2, 3, 4, 5, 6, 7, 8, 9, 10, 11, 12, 13, 14, 15}"
    by (simp add: hexdigit_def)
  then obtain d where "d \<in> {0, 1, 2, 3, 4, 5, 6, 7, 8, 9, 10, 11, 12, 13, 14, 15::nat}" "c = hexdigit d"
    by blast
  moreover from this have "d < 16" by auto
  ultimately show ?thesis by blast
qed

lemma length_be_digits: "length (be_digits w n) = w"
  by (induction w n rule: be_digits.induct) (subst be_digits.simps, simp)

lemma be_digits_lt: "d \<in> set (be_digits w n) \<Longrightarrow> d < 16"
  by (induction w n rule: be_digits.induct) (subst (asm) be_digits.simps, auto split: if_splits)

lemma hex_digits_exact:
  "length ds = w \<Longrightarrow> \<forall>d\<in>set ds. d < 16 \<Longrightarrow> hex_digits w (map hexdigit ds @ rest) = (ds, rest)"
proof (induction ds arbitrary: w)
  case Nil
  then show ?case by (cases rest) simp_all
next
  case (Cons d ds)
  then show ?case by (auto simp: hexval_hexdigit)
qed

lemma hex_acc_be_digits: "hex_acc a (be_digits w n) = a * 16 ^ w + n mod 16 ^ w"
proof (induction w n arbitrary: a rule: be_digits.induct)
  case (1 w n)
  show ?case
  proof (cases "w = 0")
    case True
    then show ?thesis by (subst be_digits.simps) simp
  next
    case False
    then obtain v where w: "w = Suc v" by (cases w) auto
    have "n mod (16 ^ v * 16) = 16 ^ v * (n div 16 ^ v mod 16) + n mod 16 ^ v"
      by (rule mod_mult2_eq)
    then show ?thesis
      using 1 [OF False, of "16 * a + n div 16 ^ (w - 1) mod 16"] w
      by (subst be_digits.simps) (simp add: algebra_simps)
  qed
qed

lemma hex_value_be_digits: "hex_value (be_digits w n) = n mod 16 ^ w"
  by (simp add: hex_value_def hex_acc_be_digits)


lemma be_digits_shift: "be_digits w (a * 16 ^ w + v) = be_digits w v"
proof (induction w v arbitrary: a rule: be_digits.induct)
  case (1 w n)
  show ?case
  proof (cases "w = 0")
    case True
    then show ?thesis by (simp add: be_digits.simps)
  next
    case False
    then obtain u where w: "w = Suc u" by (cases w) auto
    have e: "a * 16 ^ w + n = n + a * 16 * 16 ^ u"
      using w by simp
    have "(n + a * 16 * 16 ^ u) div 16 ^ u = n div 16 ^ u + a * 16"
      by simp
    then have h: "(a * 16 ^ w + n) div 16 ^ u mod 16 = n div 16 ^ u mod 16"
      unfolding e by simp
    have t: "be_digits u (a * 16 ^ w + n) = be_digits u n"
      using 1 [OF False, of "a * 16"] w by (simp add: mult.assoc)
    show ?thesis
      using w h t
      by (subst be_digits.simps, subst (2) be_digits.simps) simp
  qed
qed

lemma hex_acc_shift: "hex_acc a ds = a * 16 ^ length ds + hex_acc 0 ds"
proof (induction ds arbitrary: a)
  case Nil
  then show ?case by simp
next
  case (Cons d ds)
  show ?case
    using Cons [of "16 * a + d"] Cons [of d] by (simp add: algebra_simps)
qed

lemma hex_acc_bound: "\<forall>d\<in>set ds. d < 16 \<Longrightarrow> hex_acc 0 ds < 16 ^ length ds"
proof (induction ds)
  case Nil
  then show ?case by simp
next
  case (Cons d ds)
  then have "hex_acc 0 ds < 16 ^ length ds" and "d < 16" by simp_all
  moreover have "hex_acc 0 (d # ds) = d * 16 ^ length ds + hex_acc 0 ds"
    using hex_acc_shift [of d ds] by simp
  moreover have "d * 16 ^ length ds + 16 ^ length ds \<le> 16 * 16 ^ length ds"
    using \<open>d < 16\<close> by (metis Suc_leI mult_Suc mult_le_mono1 add.commute)
  ultimately have "hex_acc 0 (d # ds) < 16 * 16 ^ length ds"
    by linarith
  then show ?case by simp
qed

lemma be_digits_hex_value:
  "\<forall>d\<in>set ds. d < 16 \<Longrightarrow> be_digits (length ds) (hex_value ds) = ds"
proof (induction ds)
  case Nil
  then show ?case by (simp add: be_digits.simps)
next
  case (Cons d ds)
  then have ih: "be_digits (length ds) (hex_acc 0 ds) = ds" and d: "d < 16"
    by (simp_all add: hex_value_def)
  have b: "hex_acc 0 ds < 16 ^ length ds"
    using Cons.prems by (simp add: hex_acc_bound)
  have v: "hex_acc 0 (d # ds) = d * 16 ^ length ds + hex_acc 0 ds"
    using hex_acc_shift [of d ds] by simp
  have z: "hex_acc 0 ds div 16 ^ length ds = 0"
    using b by simp
  show ?case
    unfolding hex_value_def v
    by (subst be_digits.simps) (simp add: z d be_digits_shift ih)
qed


lemma scan_lx_digits:
  assumes "length ds = w" and "2 \<le> w" and "\<forall>d\<in>set ds. d < 16"
  shows "scan_lx w (map hexdigit ds @ rest) = Some (hex_value ds, rest)"
proof -
  from assms obtain d1 d2 ds' where ds: "ds = d1 # d2 # ds'"
    by (cases ds; cases "tl ds") auto
  with assms have d1: "d1 < 16" and d2: "d2 < 16" by simp_all
  have hd: "hex_digits w (map hexdigit ds @ rest) = (ds, rest)"
    using assms by (simp add: hex_digits_exact)
  show ?thesis
    using hexdigit_plain [OF d1] hexdigit_plain [OF d2] hd assms(2)
    by (simp add: scan_lx_def ds)
qed

lemma scan_lx_hex_pad:
  "2 \<le> w \<Longrightarrow> scan_lx w (hex_pad w n @ rest) = Some (n mod 16 ^ w, rest)"
  using scan_lx_digits [of "be_digits w n" w rest]
  by (simp add: hex_pad_def length_be_digits be_digits_lt hex_value_be_digits)

lemma sscanf_encode_name:
  "serial < 16 ^ 5 \<Longrightarrow> minute < 16 ^ 8 \<Longrightarrow>
   sscanf_name (encode_name q serial minute) = Some (q, serial, minute)"
  using scan_lx_hex_pad [of 8 minute "[]"]
  by (simp add: sscanf_name_def encode_name_def scan_lx_hex_pad)

lemma valid_name_encode:
  "queue_letter q \<Longrightarrow> valid_name (encode_name q serial minute)"
  by (auto simp: valid_name_def encode_name_def hex_pad_def length_be_digits list_all_iff
        hexdigit_def dest!: be_digits_lt lt16_cases)

lemma lower_hex_string:
  "list_all (\<lambda>c. c \<in> set ''0123456789abcdef'') cs \<Longrightarrow>
   \<exists>ds. cs = map hexdigit ds \<and> (\<forall>d\<in>set ds. d < 16)"
proof (induction cs)
  case Nil
  then show ?case by simp
next
  case (Cons c cs)
  then obtain ds where ds: "cs = map hexdigit ds" "\<forall>d\<in>set ds. d < 16" by auto
  from Cons.prems have "c \<in> set ''0123456789abcdef''" by simp
  then obtain d where "d < 16" "c = hexdigit d" using lower_hex_char by blast
  with ds have "c # cs = map hexdigit (d # ds) \<and> (\<forall>x\<in>set (d # ds). x < 16)" by simp
  then show ?case by (rule exI)
qed

lemma hex_pad_hex_value:
  "\<forall>d\<in>set ds. d < 16 \<Longrightarrow> hex_pad (length ds) (hex_value ds) = map hexdigit ds"
  by (simp add: hex_pad_def be_digits_hex_value)

lemma valid_name_decode:
  assumes "valid_name name"
  shows "\<exists>q serial minute. queue_letter q \<and> serial < 16 ^ 5 \<and> minute < 16 ^ 8 \<and>
           sscanf_name name = Some (q, serial, minute) \<and> encode_name q serial minute = name"
proof -
  from assms obtain q body where name: "name = q # body" and q: "queue_letter q"
    and len: "length body = 13" and hex: "list_all (\<lambda>c. c \<in> set ''0123456789abcdef'') body"
    by (auto simp: valid_name_def split: list.splits)
  from hex obtain ds where ds: "body = map hexdigit ds" "\<forall>d\<in>set ds. d < 16"
    using lower_hex_string by blast
  define s where "s = take 5 ds"
  define m where "m = drop 5 ds"
  have split: "ds = s @ m" and ls: "length s = 5" and lm: "length m = 8"
    using len ds(1) by (simp_all add: s_def m_def)
  have bs: "\<forall>d\<in>set s. d < 16" and bm: "\<forall>d\<in>set m. d < 16"
    using ds(2) split by auto
  have vs: "hex_value s < 16 ^ 5" and vm: "hex_value m < 16 ^ 8"
    using hex_acc_bound [OF bs] hex_acc_bound [OF bm] ls lm by (simp_all add: hex_value_def)
  have enc: "encode_name q (hex_value s) (hex_value m) = name"
    using hex_pad_hex_value [OF bs] hex_pad_hex_value [OF bm] ls lm
    by (simp add: encode_name_def name ds(1) split)
  have "sscanf_name (encode_name q (hex_value s) (hex_value m)) = Some (q, hex_value s, hex_value m)"
    using vs vm by (rule sscanf_encode_name)
  with enc q vs vm show ?thesis by metis
qed

text \<open>\<^verbatim>\<open>sscanf\<close> reads hexadecimal digits of either case, so two names can decode to
  the same values.\<close>

lemma sscanf_name_upper_case:
  "sscanf_name ''a0000A0000000B'' = sscanf_name ''a0000a0000000b''"
  by (simp add: sscanf_name_def scan_lx_def isspace_def hexval_def hex_value_def)

text \<open>
  Claim C9. A valid job file name is one queue letter, 5 hexadecimal digits of the
  serial number and 8 hexadecimal digits of the scheduled minute, the digits in
  lower case as the encoder writes them (\<^verbatim>\<open>sscanf\<close> reads upper case digits too, but
  no encoding has them). Encoding a queue letter, a serial number below \<open>16 ^ 5\<close>
  and a minute below \<open>16 ^ 8\<close> gives a valid name that \<^verbatim>\<open>sscanf\<close> decodes to exactly
  these three values; and every valid name decodes to three values in range whose
  encoding is the name itself.
\<close>

theorem name_roundtrip:
  "(queue_letter q \<and> serial < 16 ^ 5 \<and> minute < 16 ^ 8 \<longrightarrow>
      valid_name (encode_name q serial minute) \<and>
      sscanf_name (encode_name q serial minute) = Some (q, serial, minute)) \<and>
   (valid_name name \<longrightarrow>
      (\<exists>q' serial' minute'. queue_letter q' \<and> serial' < 16 ^ 5 \<and> minute' < 16 ^ 8 \<and>
         sscanf_name name = Some (q', serial', minute') \<and>
         encode_name q' serial' minute' = name))"
  using sscanf_encode_name valid_name_encode valid_name_decode by blast

theorem name_roundtrip_witness:
  "queue_letter CHR ''a'' \<and> (1::nat) < 16 ^ 5 \<and> (0x1a2b3c4d::nat) < 16 ^ 8 \<and>
   valid_name ''a000011a2b3c4d'' \<and>
   encode_name CHR ''a'' 1 0x1a2b3c4d = ''a000011a2b3c4d'' \<and>
   sscanf_name ''a000011a2b3c4d'' = Some (CHR ''a'', 1, 0x1a2b3c4d)"
  using name_roundtrip [of "CHR ''a''" 1 "0x1a2b3c4d" "''a000011a2b3c4d''"]
  by (simp add: queue_letter_def islower_def isupper_def valid_name_def encode_name_def
        hex_pad_def hexdigit_def be_digits.simps)

subsection \<open>The mail decision\<close>

lemmas fs_defs = resolve_def fstat_def lstat_def stat_def nlink_def unlink_def link_def
lemmas scan_name_defs = sscanf_name_def scan_lx_def isspace_def hexval_def hex_value_def
lemmas ex_defs = ex_header_def ex_inode_def ex_fs_def ex_locked_def ex_cenv_def

lemma ex_validate:
  "validate (ex_cenv n) ex_locked ''a0000100000001'' 1000 = (ex_locked, Inr ex_header)"
  by (simp add: validate_def fs_defs ex_defs)

lemma ex_child:
  "child_events (run_child (ex_cenv 0) 100 ex_locked ''a0000100000001'' 1000 1000) =
     [Unlink_job ''a0000100000001'', Create_output ''a0000100000001'' 50, Exec_sh 1000 1000 2, Wait,
      Unlink_output ''a0000100000001'', Unlink_lock ''=0000100000001'', Mail ''alice'']"
  by (simp add: run_child_def child_events_def ex_validate scan_name_defs header_size_def mail_wanted_def tolower_def isupper_def)
    (simp add: ex_defs Let_def)

text \<open>
  Claim C6, as stated: with the policy 0 (conditional), mail is sent only if the
  output file grew beyond its size after the header. It fails on a job that
  truncates its output file: the policy is 0, the final size 0 is not larger than
  the 50 bytes of the header, and the mail command is run.
\<close>

theorem mail_on_growth_counterexample:
  "send_mail ex_header = 0 \<and>
   \<not> header_size (mailname ex_header) < c_final_size (ex_cenv 0) \<and>
   validate (ex_cenv 0) ex_locked ''a0000100000001'' 1000 = (ex_locked, Inr ex_header) \<and>
   Mail (mailname ex_header) \<in>
     set (child_events (run_child (ex_cenv 0) 100 ex_locked ''a0000100000001'' 1000 1000))"
  by (simp add: ex_child ex_validate) (simp add: ex_defs)

text \<open>
  Claim C6, amended. When the checks of the child pass, its wait for the
  interpreter returns, and then mail is sent to the recipient of the header if
  and only if the policy is 1 (always), or the policy is not -1 and the size of the
  output file differs from its size after the header, in either direction; so
  with the policy 0 mail is sent exactly when the size changed, and with the
  policy -1 never.
\<close>

theorem mail_decision:
  assumes "run_child c t f filename uid gid = Done (f', evs)"
    and "validate c f filename uid = (f1, Inr h)"
  shows "(Mail (mailname h) \<in> set evs \<longleftrightarrow>
            send_mail h = 1 \<or> (send_mail h \<noteq> -1 \<and> c_final_size c \<noteq> header_size (mailname h))) \<and>
         (\<forall>m. Mail m \<in> set evs \<longrightarrow> m = mailname h) \<and>
         (send_mail h = 1 \<longrightarrow> Mail (mailname h) \<in> set evs) \<and>
         (send_mail h = 0 \<longrightarrow>
            (Mail (mailname h) \<in> set evs \<longleftrightarrow> c_final_size c \<noteq> header_size (mailname h))) \<and>
         (send_mail h = -1 \<longrightarrow> Mail (mailname h) \<notin> set evs) \<and>
         Wait \<in> set evs"
  using assms
  by (auto simp: run_child_def mail_wanted_def Let_def split: list.splits option.splits if_splits)

theorem mail_decision_witness:
  "run_child (ex_cenv 80) 100 ex_locked ''a0000100000001'' 1000 1000 =
     Done (ex_locked\<lparr>dir := [], dir_mtime := 100\<rparr>,
       [Unlink_job ''a0000100000001'', Create_output ''a0000100000001'' 50, Exec_sh 1000 1000 2, Wait,
        Unlink_output ''a0000100000001'', Unlink_lock ''=0000100000001'', Mail ''alice'']) \<and>
   validate (ex_cenv 80) ex_locked ''a0000100000001'' 1000 = (ex_locked, Inr ex_header) \<and>
   send_mail ex_header = 0 \<and> c_final_size (ex_cenv 80) \<noteq> header_size (mailname ex_header) \<and>
   Mail (mailname ex_header) \<in> set [Unlink_job ''a0000100000001'', Create_output ''a0000100000001'' 50, Exec_sh 1000 1000 2, Wait,
        Unlink_output ''a0000100000001'', Unlink_lock ''=0000100000001'', Mail ''alice'']"
proof -
  have r: "run_child (ex_cenv 80) 100 ex_locked ''a0000100000001'' 1000 1000 =
     Done (ex_locked\<lparr>dir := [], dir_mtime := 100\<rparr>,
       [Unlink_job ''a0000100000001'', Create_output ''a0000100000001'' 50, Exec_sh 1000 1000 2, Wait,
        Unlink_output ''a0000100000001'', Unlink_lock ''=0000100000001'', Mail ''alice''])"
    by (simp add: run_child_def ex_validate scan_name_defs header_size_def mail_wanted_def tolower_def isupper_def)
      (simp add: ex_defs unlink_def Let_def)
  have v: "validate (ex_cenv 80) ex_locked ''a0000100000001'' 1000 = (ex_locked, Inr ex_header)"
    by (rule ex_validate)
  from mail_decision [OF r v] r v show ?thesis
    by (simp add: ex_defs header_size_def)
qed

subsection \<open>The checks before the commit, and what follows an abort\<close>

lemma ex_stat:
  "stat ex_fs ''a0000100000001'' =
     Some \<lparr>st_dev = 1, st_ino = 7, st_type = S_IFREG, st_xusr = True, st_nlink = 1,
           st_uid = 1000, st_gid = 1000, st_size = 60\<rparr>"
  by (simp add: fs_defs ex_defs)

lemma ex_scan_entry:
  "scan_entry ex_env 100 (scan_init 100 ex_fs) ''a0000100000001'' =
     Done ((scan_init 100 ex_fs)\<lparr>s_fs := ex_locked, nothing_to_do := False,
       s_events := [Invoke ''a0000100000001'' 1000 1000, Fork ''a0000100000001'' 1000 1000]\<rparr>)"
  by (simp add: scan_entry_def scan_name_defs scan_init_def ex_stat run_time_of_def CHECK_INTERVAL_def
       isupper_def islower_def isbatch_def run_file_def Let_def)
     (simp add: link_def ex_defs ex_env_def)

lemma ex_swapped_child:
  "child_events (run_child (ex_cenv 80) 100 ex_swapped ''a0000100000001'' 1000 1000) =
    [Unlink_job ''a0000100000001'', Create_output ''a0000100000001'' 50, Exec_sh 1000 1000 2, Wait,
      Unlink_output ''a0000100000001'', Unlink_lock ''=0000100000001'', Mail ''alice'']"
  by (simp add: run_child_def child_events_def validate_def scan_name_defs header_size_def mail_wanted_def tolower_def isupper_def fs_defs Let_def ex_defs ex_swapped_def)

text \<open>
  Claim C2, amended. The job is executed only if, after the open under elevated
  privilege, the metadata of the path taken without following symbolic links
  (\<^verbatim>\<open>lstat\<close>) is not that of a symbolic link and agrees in device, inode, owning
  uid and gid and size with the metadata of the opened descriptor (\<^verbatim>\<open>fstat\<close>), the
  link count is at most 2, the header parses, its recipient does not start with a
  dash, and the uid the header declares equals the owner uid captured at
  discovery. Of the values captured at discovery only that uid is compared, and
  it is compared with the header, not with the metadata of the file.
\<close>

theorem validated_open:
  assumes "run_child c t f filename uid gid = Done (f', evs)"
    and "Exec_sh u g n \<in> set evs"
  shows "\<exists>ino buf lbuf nd h.
           resolve f filename = Some ino \<and> fstat f ino = Some buf \<and>
           lstat (c_tamper c f) filename = Some lbuf \<and>
           st_type lbuf \<noteq> S_IFLNK \<and>
           st_dev lbuf = st_dev buf \<and> st_ino lbuf = st_ino buf \<and> st_uid lbuf = st_uid buf \<and>
           st_gid lbuf = st_gid buf \<and> st_size lbuf = st_size buf \<and>
           st_nlink buf \<le> 2 \<and>
           inodes (c_tamper c f) ino = Some nd \<and> i_header nd = Some h \<and>
           take 1 (mailname h) \<noteq> ''-'' \<and> nat (nuid h mod 2 ^ 32) = uid \<and>
           c_getpwuid c uid \<and> u = uid \<and> g = ngid h"
  using assms
  by (auto simp: run_child_def validate_def Let_def
           split: list.splits option.splits if_splits prod.splits sum.splits)

lemmas loop_defs = run_loop_def scan_entry_def scan_init_def admit_batch_def run_file_def
  run_time_of_def CHECK_INTERVAL_def isupper_def islower_def isbatch_def Let_def
  strncpy_def cstr_def





lemma map_of_filter_neq:
  "map_of (filter (\<lambda>e. fst e \<noteq> n) xs) m = (if m = n then None else map_of xs m)"
  by (induction xs) auto


lemma strncpy_short:
  "length d < n \<Longrightarrow> strncpy n d = d @ replicate (n - length d) (CHR 0x00)"
  by (simp add: strncpy_def)

lemma cstr_padded:
  "CHR 0x00 \<notin> set d \<Longrightarrow> 0 < k \<Longrightarrow> cstr (d @ replicate k (CHR 0x00)) = Some d"
proof -
  assume d: "CHR 0x00 \<notin> set d" and k: "0 < k"
  from k obtain j where j: "k = Suc j" by (cases k) auto
  have "takeWhile (\<lambda>c. c \<noteq> CHR 0x00) (d @ replicate k (CHR 0x00)) =
          d @ takeWhile (\<lambda>c. c \<noteq> CHR 0x00) (replicate k (CHR 0x00))"
    using d by (intro takeWhile_append2) auto
  then show ?thesis
    using j by (simp add: cstr_def)
qed

lemma batch_name_copy:
  "length d \<le> 14 \<Longrightarrow> CHR 0x00 \<notin> set d \<Longrightarrow> cstr (strncpy 15 d) = Some d"
  by (simp add: strncpy_short cstr_padded)



theorem validated_open_witness:
  "run_child (ex_cenv 80) 100 ex_locked ''a0000100000001'' 1000 1000 =
     Done (ex_locked\<lparr>dir := [], dir_mtime := 100\<rparr>,
       [Unlink_job ''a0000100000001'', Create_output ''a0000100000001'' 50, Exec_sh 1000 1000 2, Wait,
        Unlink_output ''a0000100000001'', Unlink_lock ''=0000100000001'', Mail ''alice'']) \<and>
   resolve ex_locked ''a0000100000001'' = Some 7 \<and>
   fstat ex_locked 7 = lstat (c_tamper (ex_cenv 80) ex_locked) ''a0000100000001'' \<and>
   inodes (c_tamper (ex_cenv 80) ex_locked) 7 = Some ex_inode \<and>
   nat (nuid ex_header mod 2 ^ 32) = 1000"
proof -
  have r: "run_child (ex_cenv 80) 100 ex_locked ''a0000100000001'' 1000 1000 =
     Done (ex_locked\<lparr>dir := [], dir_mtime := 100\<rparr>,
       [Unlink_job ''a0000100000001'', Create_output ''a0000100000001'' 50, Exec_sh 1000 1000 2, Wait,
        Unlink_output ''a0000100000001'', Unlink_lock ''=0000100000001'', Mail ''alice''])"
    by (simp add: run_child_def ex_validate scan_name_defs header_size_def mail_wanted_def tolower_def isupper_def)
      (simp add: ex_defs unlink_def Let_def)
  have m: "Exec_sh 1000 1000 2 \<in> set [Unlink_job ''a0000100000001'', Create_output ''a0000100000001'' 50, Exec_sh 1000 1000 2, Wait,
        Unlink_output ''a0000100000001'', Unlink_lock ''=0000100000001'', Mail ''alice'']"
    by simp
  from validated_open [OF r m] r show ?thesis
    by (auto simp: fs_defs ex_defs)
qed


text \<open>
  Claim C2, as stated, fails. The scan finds the job on device 1, inode 7, owner
  1000, size 60, and calls \<^verbatim>\<open>run_file\<close> with uid 1000. Before the child opens the
  file the name is made to lead to another file: device 2, inode 8, owner 1001,
  size 99, whose header declares uid 1000. All the checks pass and the interpreter
  is started.
\<close>

theorem discovery_metadata_counterexample:
  "stat ex_fs ''a0000100000001'' =
     Some \<lparr>st_dev = 1, st_ino = 7, st_type = S_IFREG, st_xusr = True, st_nlink = 1,
           st_uid = 1000, st_gid = 1000, st_size = 60\<rparr> \<and>
   scan_entry ex_env 100 (scan_init 100 ex_fs) ''a0000100000001'' =
     Done ((scan_init 100 ex_fs)\<lparr>s_fs := ex_locked, nothing_to_do := False,
       s_events := [Invoke ''a0000100000001'' 1000 1000, Fork ''a0000100000001'' 1000 1000]\<rparr>) \<and>
   stat ex_swapped ''a0000100000001'' =
     Some \<lparr>st_dev = 2, st_ino = 8, st_type = S_IFREG, st_xusr = True, st_nlink = 1,
           st_uid = 1001, st_gid = 1000, st_size = 99\<rparr> \<and>
   child_events (run_child (ex_cenv 80) 100 ex_swapped ''a0000100000001'' 1000 1000) =
     [Unlink_job ''a0000100000001'', Create_output ''a0000100000001'' 50, Exec_sh 1000 1000 2, Wait,
      Unlink_output ''a0000100000001'', Unlink_lock ''=0000100000001'', Mail ''alice'']"
  by (simp add: ex_stat ex_scan_entry ex_swapped_child) (simp add: fs_defs ex_swapped_def ex_defs)

subsection \<open>Batch admission\<close>

lemma sscanf_name_hd: "sscanf_name d = Some (q, j, c) \<Longrightarrow> \<exists>rest. d = q # rest"
  by (auto simp: sscanf_name_def split: list.splits option.splits)

lemma run_file_events:
  "run_file e now f d u g = Done (f', evs) \<Longrightarrow>
     evs = [Invoke d u g, Twice d] \<or> evs = [Invoke d u g, Fork d u g]"
  by (auto simp: run_file_def Let_def
           split: list.splits option.splits prod.splits sum.splits errno.splits if_splits)

lemma scan_entry_no_batch:
  assumes "scan_entry e now s d = Done s'" and "\<forall>ev\<in>set (s_events s). \<not> batch_invoke ev"
  shows "\<forall>ev\<in>set (s_events s'). \<not> batch_invoke ev"
proof (cases "sscanf_name d")
  case None
  with assms show ?thesis by (simp add: scan_entry_def)
next
  case (Some p)
  obtain q j c where p: "p = (q, j, c)" by (cases p)
  with Some obtain rest where d: "d = q # rest" using sscanf_name_hd by blast
  have rf: "\<And>f u g f' evs. \<not> isbatch q \<Longrightarrow> run_file e now f d u g = Done (f', evs) \<Longrightarrow>
           \<forall>ev\<in>set evs. \<not> batch_invoke ev"
    using run_file_events d by (fastforce simp: batch_invoke_def)
  show ?thesis
    using assms Some p rf
    by (auto simp: scan_entry_def Let_def split: option.splits if_splits result.splits prod.splits)
qed

lemma scan_dir_no_batch:
  "scan_dir e now s ds = Done s' \<Longrightarrow> \<forall>ev\<in>set (s_events s). \<not> batch_invoke ev \<Longrightarrow>
   \<forall>ev\<in>set (s_events s'). \<not> batch_invoke ev"
proof (induction ds arbitrary: s)
  case Nil
  then show ?case by simp
next
  case (Cons d ds)
  from Cons.prems(1) obtain s1 where s1: "scan_entry e now s d = Done s1"
    and rest: "scan_dir e now s1 ds = Done s'"
    by (auto split: result.splits)
  from scan_entry_no_batch [OF s1 Cons.prems(2)] Cons.IH [OF rest] show ?case by blast
qed

lemma scan_entry_no_sample:
  "scan_entry e now s d = Done s' \<Longrightarrow> Sample \<notin> set (s_events s) \<Longrightarrow> Sample \<notin> set (s_events s')"
  by (auto simp: scan_entry_def Let_def dest!: run_file_events
           split: option.splits if_splits result.splits prod.splits)

lemma scan_dir_no_sample:
  "scan_dir e now s ds = Done s' \<Longrightarrow> Sample \<notin> set (s_events s) \<Longrightarrow> Sample \<notin> set (s_events s')"
proof (induction ds arbitrary: s)
  case Nil
  then show ?case by simp
next
  case (Cons d ds)
  from Cons.prems(1) obtain s1 where s1: "scan_entry e now s d = Done s1"
    and rest: "scan_dir e now s1 ds = Done s'"
    by (auto split: result.splits)
  from scan_entry_no_sample [OF s1 Cons.prems(2)] Cons.IH [OF rest] show ?case by blast
qed

text \<open>What the batch admission does to the events and to \<open>next_batch\<close>.\<close>

lemma admit_batch_cases:
  assumes "admit_batch e now dm s = Done (dm', s')"
  shows "(\<not> (run_batch s \<noteq> 0 \<and> next_batch dm \<le> now) \<and> dm' = dm \<and> s' = s) \<or>
         (run_batch s \<noteq> 0 \<and> next_batch dm \<le> now \<and>
          dm' = dm\<lparr>next_batch := now + int (batch_interval dm)\<rparr> \<and>
          ((\<not> dless (case e_getloadavg e of None \<Rightarrow> Fin 0 | Some l \<Rightarrow> l) (load_avg dm) \<and>
            s' = s\<lparr>s_events := s_events s @ [Sample]\<rparr>) \<or>
           (dless (case e_getloadavg e of None \<Rightarrow> Fin 0 | Some l \<Rightarrow> l) (load_avg dm) \<and>
            (\<exists>bn f' evs. cstr (batch_name s) = Some bn \<and>
               run_file e now (s_fs s) bn (batch_uid s) (batch_gid s) = Done (f', evs) \<and>
               s' = s\<lparr>s_fs := f', s_events := s_events s @ [Sample] @ evs,
                       run_batch := run_batch s - 1\<rparr>))))"
  using assms
  by (auto simp: admit_batch_def Let_def split: if_splits option.splits result.splits prod.splits)

lemma scan_init_events: "s_events (scan_init now f) = []"
  by (simp add: scan_init_def)

text \<open>A cycle, taken apart: it is skipped, or it scans and then admits.\<close>

lemma run_loop_cases:
  assumes "run_loop e now dm f = Done (dm', f', evs, nj)"
  shows "(d_nothing_to_do dm \<and> dir_mtime f \<le> last_chg dm \<and> evs = [] \<and> f' = f \<and>
          next_batch dm' = (if next_batch dm = 0 then now else next_batch dm) \<and>
          batch_interval dm' = batch_interval dm \<and> load_avg dm' = load_avg dm) \<or>
         (\<not> (d_nothing_to_do dm \<and> dir_mtime f \<le> last_chg dm) \<and>
          (\<exists>s dm3 s'. scan_dir e now (scan_init now f) (map fst (dir f)) = Done s \<and>
             admit_batch e now
               (dm\<lparr>next_batch := (if next_batch dm = 0 then now else next_batch dm),
                    last_chg := dir_mtime f\<rparr>) s = Done (dm3, s') \<and>
             evs = s_events s' \<and> f' = s_fs s' \<and> next_batch dm' = next_batch dm3 \<and>
             batch_interval dm' = batch_interval dm3 \<and> load_avg dm' = load_avg dm3))"
  using assms
  by (auto simp: run_loop_def Let_def split: if_splits result.splits prod.splits)

lemma filter_none: "\<forall>x\<in>set xs. \<not> P x \<Longrightarrow> filter P xs = []"
  by (induction xs) auto

lemma run_file_one_invoke:
  "run_file e now f d u g = Done (f', evs) \<Longrightarrow>
     length (filter batch_invoke evs) \<le> 1 \<and> Sample \<notin> set evs \<and> Invoke d u g \<in> set evs \<and>
     (\<forall>n u' g'. Invoke n u' g' \<in> set evs \<longrightarrow> n = d)"
  by (drule run_file_events) (auto simp: batch_invoke_def)

lemma cycle_batch_summary:
  assumes "run_loop e now dm f = Done (dm', f', evs, nj)"
  shows "batch_interval dm' = batch_interval dm \<and> load_avg dm' = load_avg dm \<and>
         length (filter batch_invoke evs) \<le> 1 \<and>
         ((\<exists>ev\<in>set evs. batch_invoke ev) \<longrightarrow>
            Sample \<in> set evs \<and>
            dless (case e_getloadavg e of None \<Rightarrow> Fin 0 | Some l \<Rightarrow> l) (load_avg dm)) \<and>
         (Sample \<in> set evs \<longrightarrow>
            (if next_batch dm = 0 then now else next_batch dm) \<le> now \<and>
            next_batch dm' = now + int (batch_interval dm)) \<and>
         (Sample \<notin> set evs \<longrightarrow>
            next_batch dm' = (if next_batch dm = 0 then now else next_batch dm))"
proof -
  from run_loop_cases [OF assms] show ?thesis
  proof (elim disjE conjE exE)
    assume "evs = []" "next_batch dm' = (if next_batch dm = 0 then now else next_batch dm)"
      "batch_interval dm' = batch_interval dm" "load_avg dm' = load_avg dm"
    then show ?thesis by simp
  next
    fix s dm3 s'
    define dm2 where "dm2 = dm\<lparr>next_batch := (if next_batch dm = 0 then now else next_batch dm),
                    last_chg := dir_mtime f\<rparr>"
    assume sd: "scan_dir e now (scan_init now f) (map fst (dir f)) = Done s"
      and ab: "admit_batch e now
               (dm\<lparr>next_batch := (if next_batch dm = 0 then now else next_batch dm),
                    last_chg := dir_mtime f\<rparr>) s = Done (dm3, s')"
      and ev: "evs = s_events s'" and nb: "next_batch dm' = next_batch dm3"
      and bi: "batch_interval dm' = batch_interval dm3" and la: "load_avg dm' = load_avg dm3"
    have nobatch: "\<forall>ev\<in>set (s_events s). \<not> batch_invoke ev"
      using scan_dir_no_batch [OF sd] by (simp add: scan_init_events)
    then have fl: "filter batch_invoke (s_events s) = []" by (rule filter_none)
    have nosample: "Sample \<notin> set (s_events s)"
      using scan_dir_no_sample [OF sd] by (simp add: scan_init_events)
    have nbs: "\<not> batch_invoke Sample" by (simp add: batch_invoke_def)
    from ab have ab': "admit_batch e now dm2 s = Done (dm3, s')" by (simp add: dm2_def)
    have d2: "next_batch dm2 = (if next_batch dm = 0 then now else next_batch dm)"
      "batch_interval dm2 = batch_interval dm" "load_avg dm2 = load_avg dm"
      by (simp_all add: dm2_def)
    from admit_batch_cases [OF ab'] show ?thesis
    proof (elim disjE conjE exE)
      assume "dm3 = dm2" "s' = s"
      then show ?thesis
        using ev nb bi la d2 nobatch nosample fl by auto
    next
      assume "run_batch s \<noteq> 0" "next_batch dm2 \<le> now"
        "dm3 = dm2\<lparr>next_batch := now + int (batch_interval dm2)\<rparr>"
        "s' = s\<lparr>s_events := s_events s @ [Sample]\<rparr>"
      then show ?thesis
        using ev nb bi la d2 nobatch fl nbs by auto
    next
      fix bn f1 evs1
      assume a: "run_batch s \<noteq> 0" "next_batch dm2 \<le> now"
        "dm3 = dm2\<lparr>next_batch := now + int (batch_interval dm2)\<rparr>"
        "dless (case e_getloadavg e of None \<Rightarrow> Fin 0 | Some l \<Rightarrow> l) (load_avg dm2)"
        and rf: "run_file e now (s_fs s) bn (batch_uid s) (batch_gid s) = Done (f1, evs1)"
        and s': "s' = s\<lparr>s_fs := f1, s_events := s_events s @ [Sample] @ evs1,
                       run_batch := run_batch s - 1\<rparr>"
      from run_file_one_invoke [OF rf] have "length (filter batch_invoke evs1) \<le> 1" by blast
      then show ?thesis
        using a ev nb bi la d2 fl nbs s' by auto
    qed
  qed
qed

lemma dle_not_dless: "dle a b \<Longrightarrow> \<not> dless b a"
  by (cases a; cases b) auto

text \<open>
  Claim C5. In a cycle in which the sampled 1-minute load average is greater than
  or equal to the load ceiling, no batch job is handed to \<^verbatim>\<open>run_file\<close>, whatever
  the spool holds and whatever \<open>next_batch\<close> is: also when a due batch candidate
  exists and the admission interval has elapsed.
\<close>

theorem batch_refused_on_load:
  assumes "run_loop e now dm f = Done (dm', f', evs, nj)"
    and "e_getloadavg e = Some l" and "dle (load_avg dm) l"
  shows "\<forall>ev\<in>set evs. \<not> batch_invoke ev"
  using cycle_batch_summary [OF assms(1)] assms(2,3) dle_not_dless by auto

lemma strcmp_less:
  "CHR 0x00 \<notin> set a \<Longrightarrow> CHR 0x00 \<notin> set b \<Longrightarrow> (0 < strcmp a b) = (b < a)"
proof (induction a b rule: strcmp.induct)
  case 1
  then show ?case by simp
next
  case (2 b bs)
  then show ?case by simp
next
  case (3 a as)
  then have "a \<noteq> CHR 0x00" by auto
  then have "(of_char a :: nat) \<noteq> of_char (CHR 0x00)"
    unfolding of_char_eq_iff .
  then show ?case by simp
next
  case (4 a as b bs)
  then show ?case
    by (auto simp: less_char_def)
qed

lemma scan_entry_batch_step:
  assumes "scan_entry e now s d = Done s'"
  shows "(batch_due now (s_fs s) d \<longrightarrow>
            run_batch s' = run_batch s + 1 \<and>
            (\<exists>bn. cstr (batch_name s) = Some bn \<and>
               batch_name s' = (if 0 < strcmp bn d then strncpy 15 d else batch_name s))) \<and>
         (\<not> batch_due now (s_fs s) d \<longrightarrow>
            run_batch s' = run_batch s \<and> batch_name s' = batch_name s)"
  using assms
  by (auto simp: scan_entry_def batch_due_def Let_def
           split: option.splits if_splits result.splits prod.splits)

lemma batch_due_class: "batch_due now f d \<Longrightarrow> \<exists>q rest. d = q # rest \<and> isbatch q"
  by (auto simp: batch_due_def split: option.splits dest: sscanf_name_hd)

lemma strcmp_sentinel:
  "isbatch q \<Longrightarrow> 0 < strcmp ''z2345678901234'' (q # rest)"
  by (auto simp: isbatch_def isupper_def)

lemma cstr_sentinel: "cstr (''z2345678901234'' @ [CHR 0x00]) = Some ''z2345678901234''"
  by (simp add: cstr_def)

lemma batch_inv_step:
  assumes step: "scan_entry e now s d = Done s'"
    and inv: "batch_inv s cs"
    and ok: "\<forall>c\<in>set cs. length c \<le> 14 \<and> CHR 0x00 \<notin> set c"
    and okd: "batch_due now (s_fs s) d \<longrightarrow> length d \<le> 14 \<and> CHR 0x00 \<notin> set d"
  shows "batch_inv s' (cs @ (if batch_due now (s_fs s) d then [d] else []))"
proof (cases "batch_due now (s_fs s) d")
  case False
  with scan_entry_batch_step [OF step] inv show ?thesis
    by (simp add: batch_inv_def)
next
  case True
  with scan_entry_batch_step [OF step] obtain bn where
    rb: "run_batch s' = run_batch s + 1" and bn: "cstr (batch_name s) = Some bn"
    and nm: "batch_name s' = (if 0 < strcmp bn d then strncpy 15 d else batch_name s)"
    by blast
  from True okd have d14: "length d \<le> 14" and dz: "CHR 0x00 \<notin> set d" by simp_all
  show ?thesis
  proof (cases "cs = []")
    case True
    with inv bn have "bn = ''z2345678901234''"
      by (auto simp: batch_inv_def cstr_def)
    moreover from \<open>batch_due now (s_fs s) d\<close> obtain q rest where "d = q # rest" "isbatch q"
      using batch_due_class by blast
    ultimately have "0 < strcmp bn d" using strcmp_sentinel by blast
    with nm rb inv True \<open>batch_due now (s_fs s) d\<close> show ?thesis
      by (simp add: batch_inv_def)
  next
    case False
    with inv obtain m where m: "m \<in> set cs" "\<forall>c\<in>set cs. m \<le> c" "batch_name s = strncpy 15 m"
      by (auto simp: batch_inv_def)
    from m(1) ok have m14: "length m \<le> 14" and mz: "CHR 0x00 \<notin> set m" by simp_all
    with m(3) bn have "bn = m" by (simp add: batch_name_copy)
    then have cmp: "(0 < strcmp bn d) = (d < m)"
      using mz dz by (simp add: strcmp_less)
    show ?thesis
    proof (cases "d < m")
      case True
      then have "\<forall>c\<in>set (cs @ [d]). d \<le> c"
        using m(2) by auto
      with True cmp nm rb inv \<open>batch_due now (s_fs s) d\<close> show ?thesis
        by (auto simp: batch_inv_def)
    next
      case False
      then have "\<forall>c\<in>set (cs @ [d]). m \<le> c"
        using m(2) by auto
      with False cmp nm rb inv m \<open>batch_due now (s_fs s) d\<close> \<open>cs \<noteq> []\<close> show ?thesis
        by (auto simp: batch_inv_def)
    qed
  qed
qed

lemma batch_inv_scan:
  assumes "scan_dir e now s ds = Done s'" and "batch_inv s cs"
    and "\<forall>c\<in>set cs. length c \<le> 14 \<and> CHR 0x00 \<notin> set c"
    and "\<forall>c\<in>set (batch_candidates e now s ds). length c \<le> 14 \<and> CHR 0x00 \<notin> set c"
  shows "batch_inv s' (cs @ batch_candidates e now s ds)"
  using assms
proof (induction ds arbitrary: s cs)
  case Nil
  then show ?case by simp
next
  case (Cons d ds)
  from Cons.prems(1) obtain s1 where s1: "scan_entry e now s d = Done s1"
    and rest: "scan_dir e now s1 ds = Done s'"
    by (auto split: result.splits)
  let ?new = "if batch_due now (s_fs s) d then [d] else []"
  have bc: "batch_candidates e now s (d # ds) = ?new @ batch_candidates e now s1 ds"
    using s1 by simp
  have p4: "\<forall>c\<in>set (?new @ batch_candidates e now s1 ds). length c \<le> 14 \<and> CHR 0x00 \<notin> set c"
    using Cons.prems(4) unfolding bc .
  have okd: "batch_due now (s_fs s) d \<longrightarrow> length d \<le> 14 \<and> CHR 0x00 \<notin> set d"
    using p4 by auto
  have i1: "batch_inv s1 (cs @ ?new)"
    using s1 Cons.prems(2,3) okd by (rule batch_inv_step)
  have ok1: "\<forall>c\<in>set (cs @ ?new). length c \<le> 14 \<and> CHR 0x00 \<notin> set c"
    using Cons.prems(3) okd by auto
  have ok2: "\<forall>c\<in>set (batch_candidates e now s1 ds). length c \<le> 14 \<and> CHR 0x00 \<notin> set c"
    using p4 by auto
  from Cons.IH [OF rest i1 ok1 ok2] show ?case unfolding bc by simp
qed

lemma batch_inv_init: "batch_inv (scan_init now f) []"
  by (simp add: batch_inv_def scan_init_def)

lemma run_batch_counts:
  "scan_dir e now s ds = Done s' \<Longrightarrow>
   run_batch s' = run_batch s + length (batch_candidates e now s ds)"
proof (induction ds arbitrary: s)
  case Nil
  then show ?case by simp
next
  case (Cons d ds)
  from Cons.prems obtain s1 where s1: "scan_entry e now s d = Done s1"
    and rest: "scan_dir e now s1 ds = Done s'"
    by (auto split: result.splits)
  from scan_entry_batch_step [OF s1] Cons.IH [OF rest] s1 show ?case
    by (cases "batch_due now (s_fs s) d") simp_all
qed

text \<open>
  Claim C7. When a cycle hands a batch job to \<^verbatim>\<open>run_file\<close>, its name is one of the
  due batch jobs of the scan and is lexicographically smallest among them. The
  names of the due batch jobs are taken to fit the 15 bytes of \<^verbatim>\<open>batch_name\<close> with
  their NUL, as the 14 characters of an encoded name do.
\<close>

theorem smallest_batch_candidate:
  assumes "run_loop e now dm f = Done (dm', f', evs, nj)"
    and "cands = batch_candidates e now (scan_init now f) (map fst (dir f))"
    and "\<forall>c\<in>set cands. length c \<le> 14 \<and> CHR 0x00 \<notin> set c"
    and "Invoke n u g \<in> set evs" and "batch_invoke (Invoke n u g)"
  shows "n \<in> set cands \<and> (\<forall>c\<in>set cands. n \<le> c)"
proof -
  from run_loop_cases [OF assms(1)] assms(4) obtain s dm2 dm3 s' where
    sd: "scan_dir e now (scan_init now f) (map fst (dir f)) = Done s"
    and ab: "admit_batch e now dm2 s = Done (dm3, s')" and ev: "evs = s_events s'"
    by auto
  have nobatch: "\<forall>ev\<in>set (s_events s). \<not> batch_invoke ev"
    using scan_dir_no_batch [OF sd] by (simp add: scan_init_events)
  have nbs: "\<not> batch_invoke Sample" by (simp add: batch_invoke_def)
  from admit_batch_cases [OF ab] assms(4,5) ev nobatch nbs obtain bn f1 evs1 where
    rb: "run_batch s \<noteq> 0" and bn: "cstr (batch_name s) = Some bn"
    and rf: "run_file e now (s_fs s) bn (batch_uid s) (batch_gid s) = Done (f1, evs1)"
    and s': "s' = s\<lparr>s_fs := f1, s_events := s_events s @ [Sample] @ evs1,
                       run_batch := run_batch s - 1\<rparr>"
    by auto
  from assms(4,5) ev s' nobatch nbs have "Invoke n u g \<in> set evs1" by auto
  with run_file_one_invoke [OF rf] have n: "n = bn" by blast
  have inv: "batch_inv s cands"
    using batch_inv_scan [OF sd batch_inv_init, of  ] assms(2,3) by simp
  from run_batch_counts [OF sd] rb assms(2) have "cands \<noteq> []"
    by (simp add: scan_init_def)
  with inv obtain m where m: "m \<in> set cands" "\<forall>c\<in>set cands. m \<le> c" "batch_name s = strncpy 15 m"
    by (auto simp: batch_inv_def)
  from m(1) assms(3) have "cstr (strncpy 15 m) = Some m"
    by (simp add: batch_name_copy)
  with m(3) bn have "bn = m" by simp
  with n m show ?thesis by simp
qed

text \<open>
  When \<^verbatim>\<open>getloadavg\<close> delivers no sample, the load is taken as 0. If the load ceiling
  is a number above 0 or infinite, as it is by default (the default \<^verbatim>\<open>LOADAVG_MX\<close>
  being positive) and after every \<^verbatim>\<open>-l\<close> option whose value is not NaN, a cycle that
  scans the directory, finds a due batch job and has reached \<open>next_batch\<close> asks for
  the load and hands the batch job held in \<^verbatim>\<open>batch_name\<close> to \<^verbatim>\<open>run_file\<close>.
\<close>

lemma load_failure_admits:
  assumes "run_loop e now dm f = Done (dm', f', evs, nj)"
    and "\<not> (d_nothing_to_do dm \<and> dir_mtime f \<le> last_chg dm)"
    and "scan_dir e now (scan_init now f) (map fst (dir f)) = Done s"
    and "batch_candidates e now (scan_init now f) (map fst (dir f)) \<noteq> []"
    and "next_batch dm = 0 \<or> next_batch dm \<le> now"
    and "e_getloadavg e = None"
    and "dless (Fin 0) LOADAVG_MX" and "load_avg dm = set_load_avg LOADAVG_MX opt"
    and "opt \<noteq> Some NaN"
  shows "Sample \<in> set evs \<and>
         (\<exists>bn. cstr (batch_name s) = Some bn \<and> Invoke bn (batch_uid s) (batch_gid s) \<in> set evs)"
proof -
  have pos: "dless (Fin 0) (load_avg dm)"
  proof (cases opt)
    case None
    with assms(7,8) show ?thesis by (simp add: set_load_avg_def)
  next
    case (Some v)
    with assms(9) have "v \<noteq> NaN" by simp
    then have "\<not> dle v (Fin 0) \<Longrightarrow> dless (Fin 0) v" by (cases v) auto
    with Some assms(7,8) show ?thesis by (auto simp: set_load_avg_def)
  qed
  from run_loop_cases [OF assms(1)] assms(2,3) obtain dm3 s' where
    ab: "admit_batch e now
               (dm\<lparr>next_batch := (if next_batch dm = 0 then now else next_batch dm),
                    last_chg := dir_mtime f\<rparr>) s = Done (dm3, s')" and ev: "evs = s_events s'"
    by auto
  from run_batch_counts [OF assms(3)] assms(4) have rb: "run_batch s \<noteq> 0" by simp
  from admit_batch_cases [OF ab] rb assms(5,6) pos obtain bn f1 evs1 where
    bn: "cstr (batch_name s) = Some bn"
    and rf: "run_file e now (s_fs s) bn (batch_uid s) (batch_gid s) = Done (f1, evs1)"
    and s': "s' = s\<lparr>s_fs := f1, s_events := s_events s @ [Sample] @ evs1,
                       run_batch := run_batch s - 1\<rparr>"
    by (auto split: if_splits)
  from run_file_one_invoke [OF rf] have "Invoke bn (batch_uid s) (batch_gid s) \<in> set evs1" by blast
  with bn ev s' show ?thesis by auto
qed

lemma cycles_per_cycle:
  "daemon_cycles dm cs = Done (dm', tr) \<Longrightarrow>
   batch_interval dm' = batch_interval dm \<and>
   (\<forall>(now, evs, nb)\<in>set tr.
      length (filter batch_invoke evs) \<le> 1 \<and>
      ((\<exists>ev\<in>set evs. batch_invoke ev) \<longrightarrow> Sample \<in> set evs) \<and>
      (Sample \<in> set evs \<longrightarrow> nb = now + int (batch_interval dm)))"
proof (induction cs arbitrary: dm tr)
  case Nil
  then show ?case by simp
next
  case (Cons c cs)
  obtain e now f where c: "c = (e, now, f)" by (cases c)
  from Cons.prems c obtain dm1 f' evs nj tr' where
    rl: "run_loop e now dm f = Done (dm1, f', evs, nj)"
    and rest: "daemon_cycles dm1 cs = Done (dm', tr')"
    and tr: "tr = (now, evs, next_batch dm1) # tr'"
    by (auto split: result.splits prod.splits)
  from cycle_batch_summary [OF rl] Cons.IH [OF rest] tr show ?case by auto
qed

lemma cycles_lower_bound:
  "daemon_cycles dm cs = Done (dm', tr) \<Longrightarrow> \<forall>c\<in>set cs. 0 \<le> fst (snd c) \<Longrightarrow>
   L \<le> next_batch dm \<Longrightarrow>
   \<forall>(now, evs, nb)\<in>set tr. (\<exists>ev\<in>set evs. batch_invoke ev) \<longrightarrow> L \<le> now"
proof (induction cs arbitrary: dm tr)
  case Nil
  then show ?case by simp
next
  case (Cons c cs)
  obtain e now f where c: "c = (e, now, f)" by (cases c)
  from Cons.prems(1) c obtain dm1 f' evs nj tr' where
    rl: "run_loop e now dm f = Done (dm1, f', evs, nj)"
    and rest: "daemon_cycles dm1 cs = Done (dm', tr')"
    and tr: "tr = (now, evs, next_batch dm1) # tr'"
    by (auto split: result.splits prod.splits)
  from Cons.prems(2) c have now0: "0 \<le> now" by simp
  note sm = cycle_batch_summary [OF rl]
  have fx: "L \<le> (if next_batch dm = 0 then now else next_batch dm)"
    using Cons.prems(3) now0 by auto
  have head: "(\<exists>ev\<in>set evs. batch_invoke ev) \<longrightarrow> L \<le> now"
    using sm fx by auto
  have nb1: "L \<le> next_batch dm1"
  proof (cases "Sample \<in> set evs")
    case True
    with sm fx have "L \<le> now" and "next_batch dm1 = now + int (batch_interval dm)" by auto
    then show ?thesis by simp
  next
    case False
    with sm fx show ?thesis by auto
  qed
  from Cons.prems(2) have "\<forall>c\<in>set cs. 0 \<le> fst (snd c)" by simp
  from Cons.IH [OF rest this nb1] head tr show ?case by simp
qed

text \<open>
  Claim C4. Over any run of cycles of the daemon (at times that are not negative):
  a cycle hands at most one batch job to \<^verbatim>\<open>run_file\<close>, and only in an admission
  attempt, that is, when it asks for the load; every admission attempt, whether
  the load then permits the job or not, leaves \<open>next_batch\<close> at the time of the
  cycle plus \<open>batch_interval\<close>; and a batch job is admitted in a later cycle only
  if that cycle's time is at least \<open>batch_interval\<close> after the time of every
  earlier admission attempt.
\<close>

theorem batch_admission_rate:
  assumes "daemon_cycles dm cs = Done (dm', tr)" and "\<forall>c\<in>set cs. 0 \<le> fst (snd c)"
  shows "(\<forall>(now, evs, nb)\<in>set tr.
            length (filter batch_invoke evs) \<le> 1 \<and>
            ((\<exists>ev\<in>set evs. batch_invoke ev) \<longrightarrow> Sample \<in> set evs) \<and>
            (Sample \<in> set evs \<longrightarrow> nb = now + int (batch_interval dm))) \<and>
         (\<forall>i j. i < j \<and> j < length tr \<and> Sample \<in> set (fst (snd (tr ! i))) \<and>
                (\<exists>ev\<in>set (fst (snd (tr ! j))). batch_invoke ev) \<longrightarrow>
                fst (tr ! i) + int (batch_interval dm) \<le> fst (tr ! j))"
proof
  show "\<forall>(now, evs, nb)\<in>set tr.
            length (filter batch_invoke evs) \<le> 1 \<and>
            ((\<exists>ev\<in>set evs. batch_invoke ev) \<longrightarrow> Sample \<in> set evs) \<and>
            (Sample \<in> set evs \<longrightarrow> nb = now + int (batch_interval dm))"
    using cycles_per_cycle [OF assms(1)] by blast
next
  show "\<forall>i j. i < j \<and> j < length tr \<and> Sample \<in> set (fst (snd (tr ! i))) \<and>
                (\<exists>ev\<in>set (fst (snd (tr ! j))). batch_invoke ev) \<longrightarrow>
                fst (tr ! i) + int (batch_interval dm) \<le> fst (tr ! j)"
    using assms
  proof (induction cs arbitrary: dm tr)
    case Nil
    then show ?case by simp
  next
    case (Cons c cs)
    obtain e now f where c: "c = (e, now, f)" by (cases c)
    from Cons.prems(1) c obtain dm1 f' evs nj tr' where
      rl: "run_loop e now dm f = Done (dm1, f', evs, nj)"
      and rest: "daemon_cycles dm1 cs = Done (dm', tr')"
      and tr: "tr = (now, evs, next_batch dm1) # tr'"
      by (auto split: result.splits prod.splits)
    note sm = cycle_batch_summary [OF rl]
    from sm have bi: "batch_interval dm1 = batch_interval dm" by simp
    from Cons.prems(2) have nn: "\<forall>c\<in>set cs. 0 \<le> fst (snd c)" by simp
    note ih = Cons.IH [OF rest nn, unfolded bi]
    show ?case
    proof (intro allI impI, elim conjE)
      fix i j
      assume ij: "i < j" and j: "j < length tr"
        and si: "Sample \<in> set (fst (snd (tr ! i)))"
        and bj: "\<exists>ev\<in>set (fst (snd (tr ! j))). batch_invoke ev"
      from ij obtain j' where j': "j = Suc j'" by (cases j) auto
      with j tr have j'l: "j' < length tr'" by simp
      have trj: "tr ! j = tr' ! j'" using tr j' by simp
      show "fst (tr ! i) + int (batch_interval dm) \<le> fst (tr ! j)"
      proof (cases i)
        case 0
        with si tr have "Sample \<in> set evs" by simp
        with sm have nb: "next_batch dm1 = now + int (batch_interval dm)" by simp
        have "tr' ! j' \<in> set tr'" using j'l by simp
        with cycles_lower_bound [OF rest nn, of "now + int (batch_interval dm)"] nb bj trj
        have "now + int (batch_interval dm) \<le> fst (tr' ! j')"
          by (cases "tr' ! j'") auto
        with 0 tr trj show ?thesis by simp
      next
        case (Suc i')
        with ij j' have "i' < j'" by simp
        moreover have "tr ! i = tr' ! i'" using tr Suc by simp
        ultimately show ?thesis
          using ih j'l si bj trj by auto
      qed
    qed
  qed
qed

lemmas batch_ex_defs = ex_batch_def ex_batch_locked_def ex_env_busy_def ex_env_noload_def
  ex_scanned_def ex_env_def ex_daemon_def ex_inode_def ex_header_def

lemma ex_batch_scan:
  "scan_dir e 100 (scan_init 100 ex_batch) (map fst (dir ex_batch)) = Done ex_scanned"
  by (simp add: scan_entry_def scan_init_def run_time_of_def CHECK_INTERVAL_def isupper_def
        islower_def isbatch_def Let_def strncpy_def cstr_def scan_name_defs fs_defs batch_ex_defs)

lemma ex_batch_cands:
  "batch_candidates e 100 (scan_init 100 ex_batch) (map fst (dir ex_batch)) =
     [''C0000200000001'', ''B0000100000001'']"
  by (simp add: scan_entry_def batch_due_def scan_init_def run_time_of_def CHECK_INTERVAL_def isupper_def
        islower_def isbatch_def Let_def strncpy_def cstr_def scan_name_defs fs_defs batch_ex_defs)

lemma ex_batch_cycle:
  "run_loop ex_env 100 ex_daemon ex_batch =
     Done (\<lparr>last_chg = 50, d_nothing_to_do = False, next_batch = 160, load_avg = Fin (4 / 5),
             batch_interval = 60\<rparr>, ex_batch_locked,
           [Sample, Invoke ''B0000100000001'' 1000 1000, Fork ''B0000100000001'' 1000 1000], 160)"
  by (simp add: loop_defs scan_name_defs fs_defs batch_ex_defs)

lemma ex_batch_noload:
  "run_loop ex_env_noload 100 ex_daemon ex_batch =
     Done (\<lparr>last_chg = 50, d_nothing_to_do = False, next_batch = 160, load_avg = Fin (4 / 5),
             batch_interval = 60\<rparr>, ex_batch_locked,
           [Sample, Invoke ''B0000100000001'' 1000 1000, Fork ''B0000100000001'' 1000 1000], 160)"
  by (simp add: loop_defs scan_name_defs fs_defs batch_ex_defs)

lemma ex_batch_busy:
  "run_loop ex_env_busy 100 ex_daemon ex_batch =
     Done (\<lparr>last_chg = 50, d_nothing_to_do = False, next_batch = 160, load_avg = Fin (4 / 5),
             batch_interval = 60\<rparr>, ex_batch, [Sample], 160)"
  by (simp add: loop_defs scan_name_defs fs_defs batch_ex_defs)

theorem batch_refused_on_load_witness:
  "run_loop ex_env_busy 100 ex_daemon ex_batch =
     Done (\<lparr>last_chg = 50, d_nothing_to_do = False, next_batch = 160, load_avg = Fin (4 / 5),
             batch_interval = 60\<rparr>, ex_batch, [Sample], 160) \<and>
   batch_candidates ex_env_busy 100 (scan_init 100 ex_batch) (map fst (dir ex_batch)) =
     [''C0000200000001'', ''B0000100000001''] \<and>
   e_getloadavg ex_env_busy = Some (Fin 1) \<and> dle (load_avg ex_daemon) (Fin 1) \<and>
   \<not> batch_invoke Sample"
  using batch_refused_on_load [OF ex_batch_busy, of "Fin 1"]
  by (simp add: ex_batch_busy ex_batch_cands) (simp add: ex_env_busy_def ex_daemon_def)

theorem smallest_batch_candidate_witness:
  "run_loop ex_env 100 ex_daemon ex_batch =
     Done (\<lparr>last_chg = 50, d_nothing_to_do = False, next_batch = 160, load_avg = Fin (4 / 5),
             batch_interval = 60\<rparr>, ex_batch_locked,
           [Sample, Invoke ''B0000100000001'' 1000 1000, Fork ''B0000100000001'' 1000 1000], 160) \<and>
   batch_candidates ex_env 100 (scan_init 100 ex_batch) (map fst (dir ex_batch)) =
     [''C0000200000001'', ''B0000100000001''] \<and>
   batch_invoke (Invoke ''B0000100000001'' 1000 1000) \<and>
   ''B0000100000001'' \<le> ''C0000200000001''"
proof -
  have b: "batch_invoke (Invoke ''B0000100000001'' 1000 1000)"
    by (simp add: batch_invoke_def isbatch_def isupper_def)
  have l: "\<forall>c\<in>set [''C0000200000001'', ''B0000100000001'']. length c \<le> 14 \<and> CHR 0x00 \<notin> set c"
    by simp
  have m: "Invoke ''B0000100000001'' 1000 1000 \<in>
      set [Sample, Invoke ''B0000100000001'' 1000 1000, Fork ''B0000100000001'' 1000 1000]"
    by simp
  from smallest_batch_candidate [OF ex_batch_cycle ex_batch_cands [symmetric] l m b] b
  show ?thesis
    by (simp add: ex_batch_cycle ex_batch_cands)
qed

lemma load_failure_admits_example:
  "run_loop ex_env_noload 100 ex_daemon ex_batch =
     Done (\<lparr>last_chg = 50, d_nothing_to_do = False, next_batch = 160, load_avg = Fin (4 / 5),
             batch_interval = 60\<rparr>, ex_batch_locked,
           [Sample, Invoke ''B0000100000001'' 1000 1000, Fork ''B0000100000001'' 1000 1000], 160) \<and>
   load_avg ex_daemon = set_load_avg (Fin (4 / 5)) None"
  by (simp add: ex_batch_noload) (simp add: ex_daemon_def set_load_avg_def)

text \<open>
  Claim C10 says that a failure of the load sampling never blocks the admission
  of a due batch job whose interval has elapsed. The program breaks it when it is
  started with \<^verbatim>\<open>-l nan\<close>: \<^verbatim>\<open>NaN <= 0.\<close> is false, so \<^verbatim>\<open>main\<close> keeps NaN as the load
  ceiling, although it replaces every other value that is not positive by the
  default; then \<^verbatim>\<open>0.0 < load_avg\<close> is false too. Here \<^verbatim>\<open>getloadavg\<close> fails, two batch
  jobs are due and \<open>next_batch\<close> is reached: the load is asked for, \<open>next_batch\<close> is
  moved on, and no job is handed to \<^verbatim>\<open>run_file\<close>.
\<close>

theorem nan_ceiling_blocks_batch:
  "set_load_avg (Fin (4 / 5)) (Some NaN) = NaN \<and>
   e_getloadavg ex_env_noload = None \<and>
   batch_candidates ex_env_noload 100 (scan_init 100 ex_batch) (map fst (dir ex_batch)) =
     [''C0000200000001'', ''B0000100000001''] \<and>
   next_batch ex_daemon_nan = 0 \<and>
   run_loop ex_env_noload 100 ex_daemon_nan ex_batch =
     Done (\<lparr>last_chg = 50, d_nothing_to_do = False, next_batch = 160, load_avg = NaN,
             batch_interval = 60\<rparr>, ex_batch, [Sample], 160)"
proof -
  have "run_loop ex_env_noload 100 ex_daemon_nan ex_batch =
     Done (\<lparr>last_chg = 50, d_nothing_to_do = False, next_batch = 160, load_avg = NaN,
             batch_interval = 60\<rparr>, ex_batch, [Sample], 160)"
    by (simp add: loop_defs scan_name_defs fs_defs batch_ex_defs ex_daemon_nan_def set_load_avg_def)
  then show ?thesis
    by (simp add: ex_batch_cands) (simp add: ex_daemon_nan_def set_load_avg_def ex_env_noload_def)
qed

lemma ex_batch_idle:
  "run_loop ex_env 130 \<lparr>last_chg = 50, d_nothing_to_do = False, next_batch = 160, load_avg = Fin (4 / 5),
        batch_interval = 60\<rparr> ex_batch =
     Done (\<lparr>last_chg = 50, d_nothing_to_do = False, next_batch = 160, load_avg = Fin (4 / 5),
             batch_interval = 60\<rparr>, ex_batch, [], 160)"
  by (simp add: loop_defs scan_name_defs fs_defs batch_ex_defs)

lemma ex_batch_later:
  "run_loop ex_env 160 \<lparr>last_chg = 50, d_nothing_to_do = False, next_batch = 160, load_avg = Fin (4 / 5),
        batch_interval = 60\<rparr> ex_batch =
     Done (\<lparr>last_chg = 50, d_nothing_to_do = False, next_batch = 220, load_avg = Fin (4 / 5),
             batch_interval = 60\<rparr>, ex_batch_locked\<lparr>dir_mtime := 160\<rparr>,
           [Sample, Invoke ''B0000100000001'' 1000 1000, Fork ''B0000100000001'' 1000 1000], 220)"
  by (simp add: loop_defs scan_name_defs fs_defs batch_ex_defs)

theorem batch_admission_rate_witness:
  "daemon_cycles ex_daemon [(ex_env_busy, 100, ex_batch), (ex_env, 130, ex_batch), (ex_env, 160, ex_batch)] =
     Done (\<lparr>last_chg = 50, d_nothing_to_do = False, next_batch = 220, load_avg = Fin (4 / 5),
             batch_interval = 60\<rparr>,
           [(100, [Sample], 160), (130, [], 160),
            (160, [Sample, Invoke ''B0000100000001'' 1000 1000, Fork ''B0000100000001'' 1000 1000], 220)]) \<and>
   (0::int) \<le> 100 \<and> (0::int) \<le> 130 \<and> (0::int) \<le> 160 \<and>
   batch_invoke (Invoke ''B0000100000001'' 1000 1000) \<and>
   (100::int) + int (batch_interval ex_daemon) \<le> 160"
proof -
  have r: "daemon_cycles ex_daemon [(ex_env_busy, 100, ex_batch), (ex_env, 130, ex_batch), (ex_env, 160, ex_batch)] =
     Done (\<lparr>last_chg = 50, d_nothing_to_do = False, next_batch = 220, load_avg = Fin (4 / 5),
             batch_interval = 60\<rparr>,
           [(100, [Sample], 160), (130, [], 160),
            (160, [Sample, Invoke ''B0000100000001'' 1000 1000, Fork ''B0000100000001'' 1000 1000], 220)])"
    by (simp add: ex_batch_busy ex_batch_idle ex_batch_later)
  have t: "\<forall>c\<in>set [(ex_env_busy, 100::int, ex_batch), (ex_env, 130, ex_batch), (ex_env, 160, ex_batch)].
      0 \<le> fst (snd c)"
    by simp
  have b: "batch_invoke (Invoke ''B0000100000001'' 1000 1000)"
    by (simp add: batch_invoke_def isbatch_def isupper_def)
  from batch_admission_rate [OF r t] have
    "\<forall>i j. i < j \<and> j < length [(100::int, [Sample], 160::int), (130, [], 160),
            (160, [Sample, Invoke ''B0000100000001'' 1000 1000, Fork ''B0000100000001'' 1000 1000], 220)] \<and>
       Sample \<in> set (fst (snd ([(100::int, [Sample], 160::int), (130, [], 160),
            (160, [Sample, Invoke ''B0000100000001'' 1000 1000, Fork ''B0000100000001'' 1000 1000], 220)] ! i))) \<and>
       (\<exists>ev\<in>set (fst (snd ([(100::int, [Sample], 160::int), (130, [], 160),
            (160, [Sample, Invoke ''B0000100000001'' 1000 1000, Fork ''B0000100000001'' 1000 1000], 220)] ! j))).
          batch_invoke ev) \<longrightarrow>
       fst ([(100::int, [Sample], 160::int), (130, [], 160),
            (160, [Sample, Invoke ''B0000100000001'' 1000 1000, Fork ''B0000100000001'' 1000 1000], 220)] ! i) +
         int (batch_interval ex_daemon) \<le>
       fst ([(100::int, [Sample], 160::int), (130, [], 160),
            (160, [Sample, Invoke ''B0000100000001'' 1000 1000, Fork ''B0000100000001'' 1000 1000], 220)] ! j)"
    by (rule conjunct2)
  from this [rule_format, of 0 2] b have "(100::int) + int (batch_interval ex_daemon) \<le> 160"
    by simp
  with r b show ?thesis by simp
qed

subsection \<open>Stale locks\<close>

lemma inodes_unlink: "inodes (unlink t f n) = inodes f"
  by (simp add: unlink_def)

lemma inodes_link: "link t f a b = Inr f' \<Longrightarrow> inodes f' = inodes f"
  by (auto simp: link_def split: option.splits if_splits)

lemma run_file_shape:
  "run_file e now f d u g = Done (f', evs) \<Longrightarrow>
     f' = f \<or> link now f d (CHR ''='' # tl d) = Inr f'"
  by (auto simp: run_file_def Let_def
           split: list.splits option.splits prod.splits sum.splits errno.splits if_splits)

lemma scan_entry_shape:
  assumes "scan_entry e now s d = Done s'"
  shows "s_fs s' = s_fs s \<or> (\<exists>n. s_fs s' = unlink now (s_fs s) n) \<or>
          (\<exists>q j c. sscanf_name d = Some (q, j, c) \<and> q \<noteq> CHR ''='' \<and>
             link now (s_fs s) d (CHR ''='' # tl d) = Inr (s_fs s'))"
  using assms
  by (auto simp: scan_entry_def Let_def dest!: run_file_shape
           split: option.splits if_splits result.splits prod.splits)

lemma scan_entry_inodes:
  "scan_entry e now s d = Done s' \<Longrightarrow> inodes (s_fs s') = inodes (s_fs s)"
  by (drule scan_entry_shape) (auto simp: inodes_unlink inodes_link)

lemma no_name_unlink: "no_name f i \<Longrightarrow> no_name (unlink t f n) i"
  by (auto simp: no_name_def unlink_def)

lemma no_name_link: "no_name f i \<Longrightarrow> link t f a b = Inr f' \<Longrightarrow> no_name f' i"
proof -
  assume n: "no_name f i" and l: "link t f a b = Inr f'"
  from l obtain ino where a: "map_of (dir f) a = Some ino"
    and f': "f' = f\<lparr>dir := dir f @ [(b, ino)], dir_mtime := t\<rparr>"
    by (auto simp: link_def split: option.splits if_splits)
  from a have "(a, ino) \<in> set (dir f)" by (rule map_of_SomeD)
  then have "ino \<in> snd ` set (dir f)" by force
  with n f' show ?thesis by (auto simp: no_name_def)
qed

lemma only_name_unlink_other:
  "only_name f d i \<Longrightarrow> n \<noteq> d \<Longrightarrow> only_name (unlink t f n) d i"
proof -
  assume o: "only_name f d i" and n: "n \<noteq> d"
  have "filter (\<lambda>e. snd e = i) (filter (\<lambda>e. fst e \<noteq> n) (dir f)) =
          filter (\<lambda>e. fst e \<noteq> n) (filter (\<lambda>e. snd e = i) (dir f))"
    by (simp add: conj_commute)
  also have "\<dots> = [(d, i)]"
    using o n by (simp add: only_name_def)
  finally show ?thesis
    using o n by (auto simp: only_name_def unlink_def map_of_filter_neq)
qed

lemma only_name_unlink_self: "only_name f d i \<Longrightarrow> no_name (unlink t f d) i"
proof -
  assume o: "only_name f d i"
  have "filter (\<lambda>e. snd e = i) (filter (\<lambda>e. fst e \<noteq> d) (dir f)) =
          filter (\<lambda>e. fst e \<noteq> d) (filter (\<lambda>e. snd e = i) (dir f))"
    by (simp add: conj_commute)
  also have "\<dots> = []"
    using o by (simp add: only_name_def)
  finally have "\<forall>x\<in>set (filter (\<lambda>e. fst e \<noteq> d) (dir f)). snd x \<noteq> i"
    by (force simp: filter_empty_conv)
  moreover have "dir (unlink t f d) = filter (\<lambda>e. fst e \<noteq> d) (dir f)"
    using o by (simp add: unlink_def only_name_def)
  ultimately show ?thesis
    unfolding no_name_def by (metis (no_types, lifting) imageE)
qed

lemma only_name_link:
  assumes "only_name f d i" and "link t f a b = Inr f'" and "a \<noteq> d"
  shows "only_name f' d i"
proof -
  from assms(2) obtain ino where a: "map_of (dir f) a = Some ino"
    and f': "f' = f\<lparr>dir := dir f @ [(b, ino)], dir_mtime := t\<rparr>"
    by (auto simp: link_def split: option.splits if_splits)
  from a have "(a, ino) \<in> set (dir f)" by (rule map_of_SomeD)
  moreover have "\<forall>x\<in>set (dir f). snd x = i \<longrightarrow> x = (d, i)"
  proof
    fix x assume "x \<in> set (dir f)"
    show "snd x = i \<longrightarrow> x = (d, i)"
    proof
      assume "snd x = i"
      with \<open>x \<in> set (dir f)\<close> have "x \<in> set (filter (\<lambda>e. snd e = i) (dir f))" by simp
      with assms(1) show "x = (d, i)" by (simp add: only_name_def)
    qed
  qed
  ultimately have "ino \<noteq> i" using assms(3) by auto
  with assms(1) f' show ?thesis
    by (auto simp: only_name_def map_add_def split: option.splits)
qed

text \<open>\<open>stat\<close> of a regular file that has one name, in the directory, and no other
  link.\<close>

lemma stat_only_name:
  assumes "only_name f d i" and "inodes f i = Some nd" and "i_type nd = S_IFREG"
    and "i_extern nd = 0"
  shows "stat f d = Some \<lparr>st_dev = i_dev nd, st_ino = i, st_type = S_IFREG, st_xusr = i_xusr nd,
           st_nlink = 1, st_uid = i_uid nd, st_gid = i_gid nd, st_size = i_size nd\<rparr>"
  using assms
  by (simp add: stat_def resolve_def fstat_def nlink_def only_name_def)

lemma lstat_only_name:
  assumes "lstat f d = Some buf" and "st_nlink buf = 1"
  shows "only_name f d (st_ino buf) \<and>
         (\<exists>nd. inodes f (st_ino buf) = Some nd \<and> i_extern nd = 0 \<and> i_type nd = st_type buf \<and>
               i_xusr nd = st_xusr buf)"
proof -
  from assms(1) obtain i nd where i: "map_of (dir f) d = Some i" and nd: "inodes f i = Some nd"
    and buf: "buf = \<lparr>st_dev = i_dev nd, st_ino = i, st_type = i_type nd, st_xusr = i_xusr nd,
                st_nlink = nlink f i, st_uid = i_uid nd, st_gid = i_gid nd,
                st_size = i_size nd\<rparr>"
    by (auto simp: lstat_def fstat_def split: option.splits)
  from i have mem: "(d, i) \<in> set (filter (\<lambda>e. snd e = i) (dir f))"
    by (auto dest: map_of_SomeD)
  then have "filter (\<lambda>e. snd e = i) (dir f) \<noteq> []"
    by (metis empty_iff list.set(1))
  then have pos: "0 < length (filter (\<lambda>e. snd e = i) (dir f))" by simp
  from assms(2) buf nd have one: "length (filter (\<lambda>e. snd e = i) (dir f)) + i_extern nd = 1"
    by (simp add: nlink_def)
  from one pos have l: "length (filter (\<lambda>e. snd e = i) (dir f)) = 1" and x: "i_extern nd = 0"
    by linarith+
  from l obtain y where y: "filter (\<lambda>e. snd e = i) (dir f) = [y]"
    by (cases "filter (\<lambda>e. snd e = i) (dir f)") auto
  with mem have "y = (d, i)" by simp
  with y i nd x buf show ?thesis by (simp add: only_name_def)
qed

lemma lock_step:
  assumes step: "scan_entry e now s d' = Done s'"
    and p: "sscanf_name d = Some (CHR ''='', jobno, ctm)"
    and stale: "run_time_of ctm + CHECK_INTERVAL \<le> now"
    and nd: "inodes (s_fs s) i = Some nd" "i_type nd = S_IFREG" "i_xusr nd" "i_extern nd = 0"
    and J: "only_name (s_fs s) d i \<or> no_name (s_fs s) i"
  shows "(only_name (s_fs s') d i \<or> no_name (s_fs s') i) \<and> (d' = d \<longrightarrow> no_name (s_fs s') i)"
  using J
proof
  assume n: "no_name (s_fs s) i"
  from scan_entry_shape [OF step] have "no_name (s_fs s') i"
    using n by (auto simp: no_name_unlink dest: no_name_link)
  then show ?thesis by simp
next
  assume o: "only_name (s_fs s) d i"
  show ?thesis
  proof (cases "d' = d")
    case True
    have "stat (s_fs s) d = Some \<lparr>st_dev = i_dev nd, st_ino = i, st_type = S_IFREG,
           st_xusr = i_xusr nd, st_nlink = 1, st_uid = i_uid nd, st_gid = i_gid nd,
           st_size = i_size nd\<rparr>"
      using o nd(1,2,4) by (rule stat_only_name)
    then have "scan_entry e now s d = Done (s\<lparr>s_fs := unlink now (s_fs s) d\<rparr>)"
      using p stale nd(3) by (simp add: scan_entry_def)
    with step True have "s_fs s' = unlink now (s_fs s) d" by auto
    with o have "no_name (s_fs s') i" by (simp add: only_name_unlink_self)
    then show ?thesis by simp
  next
    case False
    from scan_entry_shape [OF step] have "only_name (s_fs s') d i \<or> no_name (s_fs s') i"
    proof (elim disjE exE conjE)
      assume "s_fs s' = s_fs s"
      with o show ?thesis by simp
    next
      fix n assume u: "s_fs s' = unlink now (s_fs s) n"
      show ?thesis
      proof (cases "n = d")
        case True
        with u o show ?thesis by (simp add: only_name_unlink_self)
      next
        case False
        with u o show ?thesis by (simp add: only_name_unlink_other)
      qed
    next
      fix q j c
      assume "link now (s_fs s) d' (CHR ''='' # tl d') = Inr (s_fs s')"
      with o False show ?thesis by (auto dest: only_name_link)
    qed
    with False show ?thesis by simp
  qed
qed

lemma no_name_scan:
  "scan_dir e now s ds = Done s' \<Longrightarrow> no_name (s_fs s) i \<Longrightarrow> no_name (s_fs s') i"
proof (induction ds arbitrary: s)
  case Nil
  then show ?case by simp
next
  case (Cons d' ds)
  from Cons.prems(1) obtain s1 where s1: "scan_entry e now s d' = Done s1"
    and rest: "scan_dir e now s1 ds = Done s'"
    by (auto split: result.splits)
  from scan_entry_shape [OF s1] Cons.prems(2) have "no_name (s_fs s1) i"
    by (auto simp: no_name_unlink dest: no_name_link)
  with Cons.IH [OF rest] show ?case .
qed

lemma lock_scan:
  assumes "scan_dir e now s ds = Done s'"
    and "sscanf_name d = Some (CHR ''='', jobno, ctm)"
    and "run_time_of ctm + CHECK_INTERVAL \<le> now"
    and "inodes (s_fs s) i = Some nd" and "i_type nd = S_IFREG" and "i_xusr nd" and "i_extern nd = 0"
    and "only_name (s_fs s) d i \<or> no_name (s_fs s) i"
    and "d \<in> set ds"
  shows "no_name (s_fs s') i"
  using assms(1,4,8,9)
proof (induction ds arbitrary: s)
  case Nil
  then show ?case by simp
next
  case (Cons d' ds)
  from Cons.prems(1) obtain s1 where s1: "scan_entry e now s d' = Done s1"
    and rest: "scan_dir e now s1 ds = Done s'"
    by (auto split: result.splits)
  note st = lock_step [OF s1 assms(2,3) Cons.prems(2) assms(5,6,7) Cons.prems(3)]
  have nd1: "inodes (s_fs s1) i = Some nd"
    using scan_entry_inodes [OF s1] Cons.prems(2) by simp
  show ?case
  proof (cases "d' = d")
    case True
    with st have "no_name (s_fs s1) i" by simp
    with rest show ?thesis by (rule no_name_scan)
  next
    case False
    with Cons.prems(4) have "d \<in> set ds" by simp
    with Cons.IH [OF rest nd1] st show ?thesis by blast
  qed
qed

text \<open>
  Claim C8. In a cycle that scans the directory and comes to its end, every entry
  with the \<open>=\<close> sigil that is a regular file marked executable (a lock is a hard
  link to a ready job file), has link count 1 and an encoded time at least
  \<open>CHECK_INTERVAL\<close> old is unlinked: after the cycle no entry of the spool names
  its inode. An entry with the \<open>=\<close> sigil whose link count is not 1, or whose
  encoded time is less than \<open>CHECK_INTERVAL\<close> old, is left in place by its turn of
  the loop.
\<close>

theorem stale_lock_reclaimed:
  "(run_loop e now dm f = Done (dm', f', evs, nj) \<and>
    \<not> (d_nothing_to_do dm \<and> dir_mtime f \<le> last_chg dm) \<and>
    sscanf_name d = Some (CHR ''='', jobno, ctm) \<and> lstat f d = Some buf \<and>
    st_type buf = S_IFREG \<and> st_xusr buf \<and>
    st_nlink buf = 1 \<and> run_time_of ctm + CHECK_INTERVAL \<le> now \<longrightarrow>
      st_ino buf \<notin> snd ` set (dir f') \<and> map_of (dir f') d \<noteq> Some (st_ino buf)) \<and>
   (sscanf_name d = Some (CHR ''='', jobno, ctm) \<and> stat (s_fs s) d = Some buf \<and>
    (st_nlink buf \<noteq> 1 \<or> now < run_time_of ctm + CHECK_INTERVAL) \<longrightarrow>
      (\<exists>s'. scan_entry e now s d = Done s' \<and> s_fs s' = s_fs s))"
proof (rule conjI; rule impI)
  assume a: "run_loop e now dm f = Done (dm', f', evs, nj) \<and>
    \<not> (d_nothing_to_do dm \<and> dir_mtime f \<le> last_chg dm) \<and>
    sscanf_name d = Some (CHR ''='', jobno, ctm) \<and> lstat f d = Some buf \<and>
    st_type buf = S_IFREG \<and> st_xusr buf \<and>
    st_nlink buf = 1 \<and> run_time_of ctm + CHECK_INTERVAL \<le> now"
  then have rl: "run_loop e now dm f = Done (dm', f', evs, nj)"
    and p: "sscanf_name d = Some (CHR ''='', jobno, ctm)" and ls: "lstat f d = Some buf"
    and one: "st_nlink buf = 1" and stale: "run_time_of ctm + CHECK_INTERVAL \<le> now"
    by simp_all
  from lstat_only_name [OF ls one] a obtain nd where
    o: "only_name f d (st_ino buf)" and nd: "inodes f (st_ino buf) = Some nd"
    "i_extern nd = 0" "i_type nd = S_IFREG" "i_xusr nd"
    by auto
  from o have "d \<in> set (map fst (dir f))"
    by (auto simp: only_name_def dest!: map_of_SomeD intro: rev_image_eqI)
  from run_loop_cases [OF rl] a obtain sc dm3 sc' where
    sd: "scan_dir e now (scan_init now f) (map fst (dir f)) = Done sc"
    and ab: "admit_batch e now
               (dm\<lparr>next_batch := (if next_batch dm = 0 then now else next_batch dm),
                    last_chg := dir_mtime f\<rparr>) sc = Done (dm3, sc')"
    and f': "f' = s_fs sc'"
    by auto
  have "no_name (s_fs sc) (st_ino buf)"
    using sd p stale _ nd(3,4,2) _ \<open>d \<in> set (map fst (dir f))\<close>
    by (rule lock_scan) (simp_all add: scan_init_def nd(1) o)
  with admit_batch_cases [OF ab] have "no_name (s_fs sc') (st_ino buf)"
    by (auto dest!: run_file_shape dest: no_name_link)
  with f' have n: "st_ino buf \<notin> snd ` set (dir f')" by (simp add: no_name_def)
  then have "map_of (dir f') d \<noteq> Some (st_ino buf)"
    by (auto dest!: map_of_SomeD intro: rev_image_eqI)
  with n show "st_ino buf \<notin> snd ` set (dir f') \<and> map_of (dir f') d \<noteq> Some (st_ino buf)"
    by simp
next
  assume "sscanf_name d = Some (CHR ''='', jobno, ctm) \<and> stat (s_fs s) d = Some buf \<and>
    (st_nlink buf \<noteq> 1 \<or> now < run_time_of ctm + CHECK_INTERVAL)"
  then show "\<exists>s'. scan_entry e now s d = Done s' \<and> s_fs s' = s_fs s"
    by (auto simp: scan_entry_def Let_def)
qed

theorem stale_lock_reclaimed_witness:
  "run_loop ex_env 3700 ex_daemon ex_orphan =
     Done (\<lparr>last_chg = 50, d_nothing_to_do = True, next_batch = 3700, load_avg = Fin (4 / 5),
             batch_interval = 60\<rparr>, ex_orphan\<lparr>dir := [], dir_mtime := 3700\<rparr>, [], 7300) \<and>
   \<not> (d_nothing_to_do ex_daemon \<and> dir_mtime ex_orphan \<le> last_chg ex_daemon) \<and>
   sscanf_name ''=0000100000001'' = Some (CHR ''='', 1, 1) \<and>
   lstat ex_orphan ''=0000100000001'' =
     Some \<lparr>st_dev = 1, st_ino = 7, st_type = S_IFREG, st_xusr = True, st_nlink = 1,
           st_uid = 1000, st_gid = 1000, st_size = 60\<rparr> \<and>
   run_time_of 1 + CHECK_INTERVAL \<le> 3700 \<and>
   7 \<notin> snd ` set (dir (ex_orphan\<lparr>dir := [], dir_mtime := 3700\<rparr>)) \<and>
   (100::int) < run_time_of 1 + CHECK_INTERVAL \<and>
   scan_entry ex_env 100 (scan_init 100 ex_orphan) ''=0000100000001'' =
     Done (scan_init 100 ex_orphan)"
proof -
  have r: "run_loop ex_env 3700 ex_daemon ex_orphan =
     Done (\<lparr>last_chg = 50, d_nothing_to_do = True, next_batch = 3700, load_avg = Fin (4 / 5),
             batch_interval = 60\<rparr>, ex_orphan\<lparr>dir := [], dir_mtime := 3700\<rparr>, [], 7300)"
    by (simp add: loop_defs scan_name_defs fs_defs ex_defs ex_env_def ex_daemon_def ex_orphan_def)
  have a: "\<not> (d_nothing_to_do ex_daemon \<and> dir_mtime ex_orphan \<le> last_chg ex_daemon)"
    by (simp add: ex_daemon_def)
  have p: "sscanf_name ''=0000100000001'' = Some (CHR ''='', 1, 1)"
    by (simp add: scan_name_defs)
  have l: "lstat ex_orphan ''=0000100000001'' =
     Some \<lparr>st_dev = 1, st_ino = 7, st_type = S_IFREG, st_xusr = True, st_nlink = 1,
           st_uid = 1000, st_gid = 1000, st_size = 60\<rparr>"
    by (simp add: fs_defs ex_defs ex_orphan_def)
  have st: "stat (s_fs (scan_init 100 ex_orphan)) ''=0000100000001'' =
     Some \<lparr>st_dev = 1, st_ino = 7, st_type = S_IFREG, st_xusr = True, st_nlink = 1,
           st_uid = 1000, st_gid = 1000, st_size = 60\<rparr>"
    by (simp add: fs_defs ex_defs ex_orphan_def scan_init_def)
  have w: "run_time_of 1 + CHECK_INTERVAL \<le> 3700" and y: "(100::int) < run_time_of 1 + CHECK_INTERVAL"
    by (simp_all add: run_time_of_def CHECK_INTERVAL_def)
  note t1 = stale_lock_reclaimed [where e = ex_env and now = 3700 and dm = ex_daemon
      and f = ex_orphan and d = "''=0000100000001''" and jobno = 1 and ctm = 1
      and buf = "\<lparr>st_dev = 1, st_ino = 7, st_type = S_IFREG, st_xusr = True, st_nlink = 1,
           st_uid = 1000, st_gid = 1000, st_size = 60\<rparr>", THEN conjunct1]
  note t2 = stale_lock_reclaimed [where e = ex_env and now = 100 and s = "scan_init 100 ex_orphan"
      and d = "''=0000100000001''" and jobno = 1 and ctm = 1
      and buf = "\<lparr>st_dev = 1, st_ino = 7, st_type = S_IFREG, st_xusr = True, st_nlink = 1,
           st_uid = 1000, st_gid = 1000, st_size = 60\<rparr>", THEN conjunct2]
  from t1 r a p l w have n: "7 \<notin> snd ` set (dir (ex_orphan\<lparr>dir := [], dir_mtime := 3700\<rparr>))"
    by simp
  from t2 p st y obtain s' where s': "scan_entry ex_env 100 (scan_init 100 ex_orphan) ''=0000100000001'' = Done s'"
    and "s_fs s' = s_fs (scan_init 100 ex_orphan)"
    by blast
  have "scan_entry ex_env 100 (scan_init 100 ex_orphan) ''=0000100000001'' =
     Done (scan_init 100 ex_orphan)"
    using p st y by (simp add: scan_entry_def)
  with r a p l w n y show ?thesis by simp
qed

subsection \<open>The order of the jobs of a cycle\<close>

lemmas two_defs = ex_two_def ex_two_locked_def ex_two_after_def ex_env_def ex_daemon_def
  ex_inode_def ex_header_def ex_cenv_def ex_job_events_def

lemma ex_two_cycle:
  "run_loop ex_env 100 ex_daemon ex_two =
     Done (\<lparr>last_chg = 50, d_nothing_to_do = False, next_batch = 100, load_avg = Fin (4 / 5),
             batch_interval = 60\<rparr>, ex_two_locked,
           [Invoke ''a0000100000001'' 1000 1000, Fork ''a0000100000001'' 1000 1000,
            Invoke ''c0000200000001'' 1000 1000, Fork ''c0000200000001'' 1000 1000], 3700)"
  by (simp add: loop_defs scan_name_defs fs_defs two_defs)

lemma ex_two_child_a:
  "run_child (ex_cenv 80) 100 ex_two_locked ''a0000100000001'' 1000 1000 =
     Done (ex_two_after, ex_job_events ''a0000100000001'' ''=0000100000001'' 2)"
  by (simp add: run_child_def validate_def scan_name_defs header_size_def mail_wanted_def
        tolower_def isupper_def fs_defs Let_def two_defs)

lemma ex_two_child_c:
  "run_child (ex_cenv 80) 100 ex_two_after ''c0000200000001'' 1000 1000 =
     Done (ex_two_after\<lparr>dir := []\<rparr>,
           ex_job_events ''c0000200000001'' ''=0000200000001'' 6)"
  by (simp add: run_child_def validate_def scan_name_defs header_size_def mail_wanted_def
        tolower_def isupper_def fs_defs Let_def two_defs)

text \<open>
  Claim C3, as stated, fails. With two due jobs \<open>a\<close> and \<open>c\<close> in the spool the
  daemon invokes and forks \<open>a\<close>, then invokes and forks \<open>c\<close>, and does not wait
  in between. In the schedule \<open>ex_overlap\<close> the child of \<open>a\<close> does all its work,
  from the commit to the mail, after the daemon has begun \<open>c\<close>: the jobs are not run
  one at a time.
\<close>

theorem jobs_overlap_counterexample:
  "run_loop ex_env 100 ex_daemon ex_two =
     Done (\<lparr>last_chg = 50, d_nothing_to_do = False, next_batch = 100, load_avg = Fin (4 / 5),
             batch_interval = 60\<rparr>, ex_two_locked,
           [Invoke ''a0000100000001'' 1000 1000, Fork ''a0000100000001'' 1000 1000,
            Invoke ''c0000200000001'' 1000 1000, Fork ''c0000200000001'' 1000 1000], 3700) \<and>
   run_child (ex_cenv 80) 100 ex_two_locked ''a0000100000001'' 1000 1000 =
     Done (ex_two_after, ex_job_events ''a0000100000001'' ''=0000100000001'' 2) \<and>
   run_child (ex_cenv 80) 100 ex_two_after ''c0000200000001'' 1000 1000 =
     Done (ex_two_after\<lparr>dir := []\<rparr>,
           ex_job_events ''c0000200000001'' ''=0000200000001'' 6) \<and>
   is_schedule
     [Invoke ''a0000100000001'' 1000 1000, Fork ''a0000100000001'' 1000 1000,
      Invoke ''c0000200000001'' 1000 1000, Fork ''c0000200000001'' 1000 1000]
     [(''a0000100000001'', ex_job_events ''a0000100000001'' ''=0000100000001'' 2),
      (''c0000200000001'', ex_job_events ''c0000200000001'' ''=0000200000001'' 6)]
     ex_overlap \<and>
   \<not> one_at_a_time None ex_overlap"
  by (simp add: ex_two_cycle ex_two_child_a ex_two_child_c)
    (simp add: is_schedule_def ex_overlap_def ex_job_events_def)

lemma started_in_turn_append:
  "started_in_turn xs \<Longrightarrow> started_in_turn ys \<Longrightarrow> started_in_turn (xs @ ys)"
  by (induction xs rule: started_in_turn.induct) auto

lemma run_file_in_turn:
  "run_file e now f d u g = Done (f', evs) \<Longrightarrow> started_in_turn evs"
  by (drule run_file_events) auto

lemma scan_entry_in_turn:
  "scan_entry e now s d = Done s' \<Longrightarrow> started_in_turn (s_events s) \<Longrightarrow>
   started_in_turn (s_events s')"
  by (auto simp: scan_entry_def Let_def started_in_turn_append dest!: run_file_in_turn
           split: option.splits if_splits result.splits prod.splits)

lemma scan_dir_in_turn:
  "scan_dir e now s ds = Done s' \<Longrightarrow> started_in_turn (s_events s) \<Longrightarrow>
   started_in_turn (s_events s')"
proof (induction ds arbitrary: s)
  case Nil
  then show ?case by simp
next
  case (Cons d ds)
  from Cons.prems(1) obtain s1 where s1: "scan_entry e now s d = Done s1"
    and rest: "scan_dir e now s1 ds = Done s'"
    by (auto split: result.splits)
  from scan_entry_in_turn [OF s1 Cons.prems(2)] Cons.IH [OF rest] show ?case by blast
qed

lemma run_child_order:
  "run_child c t f n u g = Done (f', tr) \<Longrightarrow> job_order tr"
  by (auto simp: run_child_def job_order_def Let_def
           split: list.splits option.splits if_splits prod.splits sum.splits)

text \<open>
  Claim C3, amended. Within one cycle the daemon starts the due jobs one at a
  time: each call of \<^verbatim>\<open>run_file\<close>, the one for the admitted batch job included,
  takes the lock and forks the child of the job (or finds the lock taken) before
  the next call begins; the daemon does not wait for the child. Within each job
  the child works in sequence: it aborts, or it commits, creates the output file,
  starts the interpreter, waits for its exit, removes the output file and the
  lock, and last sends the mail or exits.
\<close>

theorem jobs_started_in_turn:
  "(run_loop e now dm f = Done (dm', f', evs, nj) \<longrightarrow> started_in_turn evs) \<and>
   (run_child c t f2 n u g = Done (f3, tr) \<longrightarrow> job_order tr)"
proof (rule conjI; rule impI)
  assume rl: "run_loop e now dm f = Done (dm', f', evs, nj)"
  from run_loop_cases [OF rl] show "started_in_turn evs"
  proof (elim disjE conjE exE)
    assume "evs = []"
    then show ?thesis by simp
  next
    fix s dm3 s'
    assume sd: "scan_dir e now (scan_init now f) (map fst (dir f)) = Done s"
      and ab: "admit_batch e now
               (dm\<lparr>next_batch := (if next_batch dm = 0 then now else next_batch dm),
                    last_chg := dir_mtime f\<rparr>) s = Done (dm3, s')"
      and ev: "evs = s_events s'"
    have t: "started_in_turn (s_events s)"
      using scan_dir_in_turn [OF sd] by (simp add: scan_init_events)
    have smp: "started_in_turn [Sample]" by simp
    from admit_batch_cases [OF ab] t ev show ?thesis
      by (auto dest!: run_file_in_turn intro!: started_in_turn_append smp)
  qed
next
  assume "run_child c t f2 n u g = Done (f3, tr)"
  then show "job_order tr" by (rule run_child_order)
qed

theorem jobs_started_in_turn_witness:
  "run_loop ex_env 100 ex_daemon ex_two =
     Done (\<lparr>last_chg = 50, d_nothing_to_do = False, next_batch = 100, load_avg = Fin (4 / 5),
             batch_interval = 60\<rparr>, ex_two_locked,
           [Invoke ''a0000100000001'' 1000 1000, Fork ''a0000100000001'' 1000 1000,
            Invoke ''c0000200000001'' 1000 1000, Fork ''c0000200000001'' 1000 1000], 3700) \<and>
   started_in_turn
     [Invoke ''a0000100000001'' 1000 1000, Fork ''a0000100000001'' 1000 1000,
      Invoke ''c0000200000001'' 1000 1000, Fork ''c0000200000001'' 1000 1000] \<and>
   run_child (ex_cenv 80) 100 ex_two_locked ''a0000100000001'' 1000 1000 =
     Done (ex_two_after, ex_job_events ''a0000100000001'' ''=0000100000001'' 2) \<and>
   job_order (ex_job_events ''a0000100000001'' ''=0000100000001'' 2)"
  using jobs_started_in_turn [where e = ex_env and now = 100 and dm = ex_daemon and f = ex_two
      and c = "ex_cenv 80" and t = 100 and ?f2.0 = ex_two_locked and n = "''a0000100000001''"
      and u = 1000 and g = 1000]
  by (simp add: ex_two_cycle ex_two_child_a)

subsection \<open>The commit point, and the retry of an aborted job\<close>












text \<open>The abort for excess links: the job file has a link outside the spool. The
  child aborts; the scans at time 3700 remove the lock and then find the link
  count 2 each time, so the job is not run again.\<close>

lemma excess_links_example:
  "run_child (ex_cenv 80) 100 ex_extra_locked ''a0000100000001'' 1000 1000 =
     Done (ex_extra_locked, [Abort ''Somebody is trying to run a linked script for job'']) \<and>
   run_loop ex_env 3700 (ex_daemon\<lparr>last_chg := 50, next_batch := 100\<rparr>) ex_extra_locked =
     Done (ex_daemon\<lparr>last_chg := 100, next_batch := 100\<rparr>, ex_extra, [], 3700) \<and>
   run_loop ex_env 3700 (ex_daemon\<lparr>last_chg := 100, next_batch := 100\<rparr>) ex_extra =
     Done (ex_daemon\<lparr>last_chg := 3700, next_batch := 100\<rparr>, ex_extra, [], 3700)"
proof -
  have "run_child (ex_cenv 80) 100 ex_extra_locked ''a0000100000001'' 1000 1000 =
     Done (ex_extra_locked, [Abort ''Somebody is trying to run a linked script for job''])"
    by (simp add: run_child_def validate_def scan_name_defs fs_defs ex_defs ex_extra_def
          ex_extra_locked_def)
  moreover have "run_loop ex_env 3700 (ex_daemon\<lparr>last_chg := 50, next_batch := 100\<rparr>) ex_extra_locked =
     Done (ex_daemon\<lparr>last_chg := 100, next_batch := 100\<rparr>, ex_extra, [], 3700)"
    by (simp add: loop_defs scan_name_defs fs_defs ex_defs ex_env_def ex_daemon_def ex_extra_def
          ex_extra_locked_def)
  moreover have "run_loop ex_env 3700 (ex_daemon\<lparr>last_chg := 100, next_batch := 100\<rparr>) ex_extra =
     Done (ex_daemon\<lparr>last_chg := 3700, next_batch := 100\<rparr>, ex_extra, [], 3700)"
    by (simp add: loop_defs scan_name_defs fs_defs ex_defs ex_env_def ex_daemon_def ex_extra_def
          ex_extra_locked_def)
  ultimately show ?thesis by simp
qed

end
